theory Spec2Isabelle
  imports Main "HOL-Library.Char_ord" "HOL-Library.List_Lexorder"
begin

section \<open>Strings\<close>

text \<open>
  Python strings are modelled as \<^typ>\<open>string\<close>, one \<^typ>\<open>char\<close> per code point, so the
  model covers the code points below 256. Comparison of strings is lexicographic on code
  points, as Python's is. The identity tests \<^verbatim>\<open>char is '('\<close> and \<^verbatim>\<open>x is str()\<close> of the source
  are equalities here: CPython shares one object per one-character string of this range and
  one empty string.
\<close>

definition whitespace :: "char list" where
  "whitespace = [CHR 0x09, CHR 0x0A, CHR 0x0B, CHR 0x0C, CHR 0x0D, CHR 0x1C, CHR 0x1D,
     CHR 0x1E, CHR 0x1F, CHR 0x20, CHR 0x85, CHR 0xA0]"

definition isspace :: "char \<Rightarrow> bool" where
  "isspace c \<longleftrightarrow> c \<in> set whitespace"

text \<open>\<^verbatim>\<open>str.strip()\<close>: leading and trailing whitespace removed.\<close>

definition strip :: "string \<Rightarrow> string" where
  "strip s = rev (dropWhile isspace (rev (dropWhile isspace s)))"

text \<open>\<^verbatim>\<open>str.lower()\<close> on the code points below 256.\<close>

definition lower_char :: "char \<Rightarrow> char" where
  "lower_char c =
     (let n = (of_char c :: nat)
      in if (65 \<le> n \<and> n \<le> 90) \<or> (192 \<le> n \<and> n \<le> 214) \<or> (216 \<le> n \<and> n \<le> 222)
         then char_of (n + 32) else c)"

definition lower :: "string \<Rightarrow> string" where
  "lower s = map lower_char s"

text \<open>\<^verbatim>\<open>str.split(sep)\<close> for a separator of one character: never an empty list.\<close>

fun split_on :: "char \<Rightarrow> string \<Rightarrow> string list" where
  "split_on sep [] = [[]]"
| "split_on sep (c # cs) =
     (if c = sep then [] # split_on sep cs
      else (case split_on sep cs of [] \<Rightarrow> [[c]] | w # ws \<Rightarrow> (c # w) # ws))"

text \<open>\<^verbatim>\<open>s.replace(old, new, 1)\<close>: the leftmost occurrence only; an empty \<open>old\<close> occurs at
  position 0.\<close>

fun replace_first :: "string \<Rightarrow> string \<Rightarrow> string \<Rightarrow> string" where
  "replace_first old new [] = (if old = [] then new else [])"
| "replace_first old new (c # cs) =
     (if take (length old) (c # cs) = old then new @ drop (length old) (c # cs)
      else c # replace_first old new cs)"

text \<open>\<^verbatim>\<open>s.replace(old, new)\<close>: every occurrence, left to right, without overlap. An empty
  \<open>old\<close> occurs before every character and at the end.\<close>

function replace_all :: "string \<Rightarrow> string \<Rightarrow> string \<Rightarrow> string" where
  "replace_all old new s =
     (if old = [] then new @ concat (map (\<lambda>c. c # new) s)
      else if s = [] then []
      else if take (length old) s = old then new @ replace_all old new (drop (length old) s)
      else hd s # replace_all old new (tl s))"
  by pat_completeness auto
termination
  by (relation "measure (\<lambda>(old, new, s). length s)") (auto simp: neq_Nil_conv)

declare replace_all.simps [simp del]

text \<open>Modelled from the spec: \<^verbatim>\<open>string_utils.remove_from_string\<close> is not among the sources.
  The spec gives it as the String Cleaner \<^verbatim>\<open>stripChars(s, chars)\<close>, used to "remove all of
  ( ) [ ] from the span": every occurrence of each listed symbol is deleted.\<close>

definition remove_from_string :: "string \<Rightarrow> char list \<Rightarrow> string" where
  "remove_from_string string symbols_to_remove = filter (\<lambda>c. c \<notin> set symbols_to_remove) string"

section \<open>Regular expressions\<close>

text \<open>
  The four patterns of the source are built from a character class (the \<^verbatim>\<open>language_regex\<close>
  of the active language), literals, concatenation, alternation, \<^verbatim>\<open>*\<close> and \<^verbatim>\<open>+\<close>. The
  matcher below is the backtracking one: \<open>rx_ends r s\<close> lists, in the order in which the
  engine tries them, the rests of \<open>s\<close> left after a match of \<open>r\<close> at the start of \<open>s\<close>:
  alternatives left to right, repetitions greedy. An iteration of a repetition that
  consumes nothing is not repeated.
\<close>

datatype rx = Class "char set" | Lit char | Cat rx rx | Alt rx rx | Star rx | Plus rx

primrec star_ends :: "(string \<Rightarrow> string list) \<Rightarrow> nat \<Rightarrow> string \<Rightarrow> string list" where
  "star_ends f 0 s = [s]"
| "star_ends f (Suc n) s =
     concat (map (star_ends f n) (filter (\<lambda>t. length t < length s) (f s))) @ [s]"

primrec rx_ends :: "rx \<Rightarrow> string \<Rightarrow> string list" where
  "rx_ends (Class A) s = (case s of [] \<Rightarrow> [] | c # t \<Rightarrow> if c \<in> A then [t] else [])"
| "rx_ends (Lit a) s = (case s of [] \<Rightarrow> [] | c # t \<Rightarrow> if c = a then [t] else [])"
| "rx_ends (Cat r1 r2) s = concat (map (rx_ends r2) (rx_ends r1 s))"
| "rx_ends (Alt r1 r2) s = rx_ends r1 s @ rx_ends r2 s"
| "rx_ends (Star r) s = star_ends (rx_ends r) (length s) s"
| "rx_ends (Plus r) s =
     concat (map (\<lambda>t. star_ends (rx_ends r) (length t) t) (rx_ends r s))"

text \<open>\<^verbatim>\<open>pattern.search(s)\<close>: the first match at the leftmost position that has one; the
  result is the matched text (each pattern is one named group around everything, so this
  is also what \<^verbatim>\<open>match.group(name)\<close> returns).\<close>

fun rx_search :: "rx \<Rightarrow> string \<Rightarrow> string option" where
  "rx_search r [] = (case rx_ends r [] of [] \<Rightarrow> None | e # _ \<Rightarrow> Some [])"
| "rx_search r (c # cs) =
     (case rx_ends r (c # cs) of
        [] \<Rightarrow> rx_search r cs
      | e # _ \<Rightarrow> Some (take (length (c # cs) - length e) (c # cs)))"

text \<open>\<^verbatim>\<open>pattern.fullmatch(s)\<close>: the engine backtracks until a match ends at the end of \<open>s\<close>.\<close>

definition rx_fullmatch :: "rx \<Rightarrow> string \<Rightarrow> string option" where
  "rx_fullmatch r s = (if [] \<in> set (rx_ends r s) then Some s else None)"

text \<open>The body shared by three patterns:
  \<^verbatim>\<open>(?:L*|(L*\|L*)*|(L*\|L*\|L*)*)\<close>, with \<open>L\<close> the class of the language.\<close>

definition alternation :: "char set \<Rightarrow> rx" where
  "alternation A =
     (let L = Star (Class A); bar = Lit (CHR ''|'')
      in Alt L (Alt (Star (Cat L (Cat bar L)))
                    (Star (Cat L (Cat bar (Cat L (Cat bar L)))))))"

definition GROUPS_REGEX :: "char set \<Rightarrow> rx" where
  "GROUPS_REGEX A = Cat (Lit (CHR ''('')) (Cat (alternation A) (Lit (CHR '')'')))"

definition OPTIONALS_REGEX :: "char set \<Rightarrow> rx" where
  "OPTIONALS_REGEX A = Cat (Lit (CHR ''['')) (Cat (alternation A) (Lit (CHR '']'')))"

definition OPTIONS_REGEX :: "char set \<Rightarrow> rx" where
  "OPTIONS_REGEX A = alternation A"

definition WORDS_REGEX :: "char set \<Rightarrow> rx" where
  "WORDS_REGEX A = Plus (Class A)"

section \<open>Diagnostics and errors\<close>

text \<open>
  Logging is modelled as a list of diagnostics, oldest first. A diagnostic records the
  kind of message and the values formatted into it, not its text (the ordinal suffix comes
  from \<^verbatim>\<open>string_utils.number_position_suffix\<close>, which is not among the sources).
\<close>

datatype diagnostic =
    LanguageNotSupported
  | NoBnfProvided
  | ClosingWithoutOpener char nat
  | Mismatch nat char char
  | MissingClosing char char nat

text \<open>The only exception the module can raise: \<^verbatim>\<open>words_match.group\<close> on a failed search.\<close>

datatype error = AttributeError

section \<open>The functions of grammar\_utils\<close>

subsection \<open>validate\_bnf\_groups\<close>

text \<open>The stack has its top at the head; an entry is the opener and its index.\<close>

fun validate_loop :: "string \<Rightarrow> nat \<Rightarrow> (char \<times> nat) list \<Rightarrow> bool \<times> diagnostic list" where
  "validate_loop [] character_index group_stack =
     (if group_stack = [] then (True, [])
      else (False, concat (map (\<lambda>(group, index).
              (if group = CHR ''('' then [MissingClosing (CHR '')'') group index] else []) @
              (if group = CHR ''['' then [MissingClosing (CHR '']'') group index] else []))
            (rev group_stack))))"
| "validate_loop (char # rest) character_index group_stack =
     (if char = CHR ''('' \<or> char = CHR ''[''
      then validate_loop rest (character_index + 1) ((char, character_index) # group_stack)
      else if char = CHR '')'' \<and> group_stack = []
      then (False, [ClosingWithoutOpener (CHR '')'') character_index])
      else if char = CHR '')'' \<and> fst (hd group_stack) = CHR ''(''
      then validate_loop rest (character_index + 1) (tl group_stack)
      else if char = CHR '')'' \<and> fst (hd group_stack) = CHR ''[''
      then (False, [Mismatch character_index (fst (hd group_stack)) (CHR '')'')])
      else if char = CHR '']'' \<and> group_stack = []
      then (False, [ClosingWithoutOpener (CHR '']'') character_index])
      else if char = CHR '']'' \<and> fst (hd group_stack) = CHR ''[''
      then validate_loop rest (character_index + 1) (tl group_stack)
      else if char = CHR '']'' \<and> fst (hd group_stack) = CHR ''(''
      then (False, [Mismatch character_index (fst (hd group_stack)) (CHR '']'')])
      else validate_loop rest (character_index + 1) group_stack)"

definition validate_bnf_groups :: "string \<Rightarrow> bool \<times> diagnostic list" where
  "validate_bnf_groups bnf = validate_loop bnf 0 []"

subsection \<open>split\_options and get\_potential\_options\<close>

definition split_options :: "string \<Rightarrow> string list" where
  "split_options string =
     (let cleaned_string = remove_from_string string [CHR ''('', CHR '')'', CHR ''['', CHR '']'']
      in map strip (split_on (CHR ''|'') cleaned_string))"

definition get_potential_options :: "string \<Rightarrow> string \<Rightarrow> string set" where
  "get_potential_options bnf matched_value =
     set (map (\<lambda>option. replace_first matched_value option bnf) (split_options matched_value))"

subsection \<open>is\_words\_only and are\_all\_words\_only\<close>

text \<open>\<open>alphabets\<close> stands for the table \<^verbatim>\<open>lang_utils.LANGUAGE_UNICODE_ALPHABET\<close>, which is
  not among the sources: it maps a language code to the character class of the language.\<close>

definition is_words_only ::
  "(string \<rightharpoonup> char set) \<Rightarrow> string \<Rightarrow> string \<Rightarrow> (error + bool) \<times> diagnostic list" where
  "is_words_only alphabets string language_code =
     (case alphabets (lower language_code) of
        None \<Rightarrow> (Inr False, [LanguageNotSupported])
      | Some A \<Rightarrow>
          (case rx_search (WORDS_REGEX A) string of
             None \<Rightarrow> (Inl AttributeError, [])
           | Some atomic_words \<Rightarrow> (Inr (atomic_words = string), [])))"

text \<open>The sentences come as the list in which the set is iterated.\<close>

fun are_all_words_only ::
  "(string \<rightharpoonup> char set) \<Rightarrow> string list \<Rightarrow> string \<Rightarrow> (error + bool) \<times> diagnostic list" where
  "are_all_words_only alphabets [] language_code = (Inr True, [])"
| "are_all_words_only alphabets (sentence # sentences) language_code =
     (case is_words_only alphabets sentence (lower language_code) of
        (Inl e, log) \<Rightarrow> (Inl e, log)
      | (Inr False, log) \<Rightarrow> (Inr False, log)
      | (Inr True, log) \<Rightarrow>
          (case are_all_words_only alphabets sentences language_code of
             (r, log') \<Rightarrow> (r, log @ log')))"

subsection \<open>expand\_bnf\_recursive\<close>

text \<open>The first loop: a candidate that is as a whole a bare alternation is split.\<close>

definition expand_options :: "char set \<Rightarrow> string \<Rightarrow> string set" where
  "expand_options A expanding =
     (case rx_fullmatch (OPTIONS_REGEX A) expanding of
        None \<Rightarrow> {expanding}
      | Some options \<Rightarrow> if options = [] then {expanding} else set (split_options options))"

text \<open>The body of the second loop for a candidate that passed the validation.\<close>

definition expand_group :: "char set \<Rightarrow> string \<Rightarrow> string set" where
  "expand_group A expanding =
     (case rx_search (GROUPS_REGEX A) expanding of
        None \<Rightarrow> {expanding}
      | Some group_value \<Rightarrow>
          if group_value = [] then {expanding}
          else get_potential_options expanding group_value)"

text \<open>The second loop, over the candidates in iteration order: the first candidate that
  fails the validation ends the call (\<open>None\<close>); the log carries what the validations wrote.\<close>

fun group_loop ::
  "char set \<Rightarrow> string list \<Rightarrow> string set \<Rightarrow> diagnostic list \<Rightarrow> string set option \<times> diagnostic list"
  where
  "group_loop A [] group_expansions log = (Some group_expansions, log)"
| "group_loop A (expanding # rest) group_expansions log =
     (case validate_bnf_groups expanding of
        (True, l) \<Rightarrow> group_loop A rest (group_expansions \<union> expand_group A expanding) (log @ l)
      | (False, l) \<Rightarrow> (None, log @ l))"

text \<open>The body of the third loop.\<close>

definition expand_optional :: "char set \<Rightarrow> string \<Rightarrow> string set" where
  "expand_optional A expanding =
     (case rx_search (OPTIONALS_REGEX A) expanding of
        None \<Rightarrow> {expanding}
      | Some optional \<Rightarrow>
          if optional = [] then {expanding}
          else (let tmp_new_expansion = replace_first optional [] expanding
                in insert (replace_all ''  '' '' '' tmp_new_expansion)
                     (get_potential_options expanding optional)))"

text \<open>The first and the third loop accumulate unions over the set they iterate.\<close>

definition options_loop :: "char set \<Rightarrow> string set \<Rightarrow> string set" where
  "options_loop A to_be_expanded = (\<Union>expanding \<in> to_be_expanded. expand_options A expanding)"

definition optionals_loop :: "char set \<Rightarrow> string set \<Rightarrow> string set" where
  "optionals_loop A group_expansions =
     (\<Union>expanding \<in> group_expansions. expand_optional A expanding)"

text \<open>
  A Python set is iterated in an order that the language leaves open. The first and the
  third loop only accumulate unions, so they are unions over the set; the second loop and
  \<open>are_all_words_only\<close> stop early, so they run over \<open>iter S\<close>, the list in which the set
  \<open>S\<close> is iterated. \<open>iter\<close> is a parameter of the model.

  The log is passed through the call and returned with the result. A call that never
  returns is the value \<open>None\<close> (CPython ends such a recursion with a RecursionError once
  its recursion limit is reached; the limit is not modelled).
\<close>

partial_function (option) expand_bnf_recursive ::
  "(string set \<Rightarrow> string list) \<Rightarrow> (string \<rightharpoonup> char set) \<Rightarrow> string set \<Rightarrow> string \<Rightarrow>
     diagnostic list \<Rightarrow> ((error + string list) \<times> diagnostic list) option" where
  "expand_bnf_recursive iter alphabets to_be_expanded language_code log =
     (case alphabets (lower language_code) of
        None \<Rightarrow> Some (Inr [], log @ [LanguageNotSupported])
      | Some A \<Rightarrow>
          if to_be_expanded = {} then Some (Inr [], log @ [NoBnfProvided])
          else
            (let option_expansions = options_loop A to_be_expanded
             in case group_loop A (iter option_expansions) {} log of
                  (None, log1) \<Rightarrow> Some (Inr [], log1)
                | (Some group_expansions, log1) \<Rightarrow>
                    (let group_optional_expansions = optionals_loop A group_expansions
                     in case are_all_words_only alphabets (iter group_optional_expansions)
                               (lower language_code) of
                          (Inl e, log2) \<Rightarrow> Some (Inl e, log1 @ log2)
                        | (Inr all_words, log2) \<Rightarrow>
                            if \<not> all_words
                            then expand_bnf_recursive iter alphabets group_optional_expansions
                                   language_code (log1 @ log2)
                            else Some (Inr (sorted_list_of_set group_optional_expansions),
                                       log1 @ log2))))"

declare expand_bnf_recursive.simps [code]

section \<open>Notions used in the statements\<close>

text \<open>An iteration order lists every finite set completely, each element once.\<close>

definition enumerates :: "(string set \<Rightarrow> string list) \<Rightarrow> bool" where
  "enumerates iter \<longleftrightarrow> (\<forall>S. finite S \<longrightarrow> set (iter S) = S \<and> distinct (iter S))"

text \<open>The grammar punctuation of the notation.\<close>

definition brackets :: "char set" where
  "brackets = {CHR ''('', CHR '')'', CHR ''['', CHR '']''}"

definition punctuation :: "char set" where
  "punctuation = insert (CHR ''|'') brackets"

text \<open>The working set that a round hands on when no candidate fails the validation.\<close>

definition round_output :: "char set \<Rightarrow> string set \<Rightarrow> string set" where
  "round_output A S = optionals_loop A (\<Union>e \<in> options_loop A S. expand_group A e)"

text \<open>Well-nested bracketing, as the notation defines it: every \<open>(\<close> is closed by a later
  \<open>)\<close>, every \<open>[\<close> by a later \<open>]\<close>, pairs lie side by side or one inside the other, and
  any other character may stand anywhere.\<close>

inductive balanced :: "string \<Rightarrow> bool" where
  empty: "balanced []"
| other: "c \<notin> brackets \<Longrightarrow> balanced [c]"
| group: "balanced w \<Longrightarrow> balanced (CHR ''('' # w @ [CHR '')''])"
| optional: "balanced w \<Longrightarrow> balanced (CHR ''['' # w @ [CHR '']''])"
| sequence: "balanced u \<Longrightarrow> balanced v \<Longrightarrow> balanced (u @ v)"

text \<open>\<open>reaches iter alphabets language_code S W\<close>: a call on the working set \<open>S\<close> comes, after
  some rounds that each end in the recursive call, to a call on the working set \<open>W\<close>.\<close>

inductive reaches ::
  "(string set \<Rightarrow> string list) \<Rightarrow> (string \<rightharpoonup> char set) \<Rightarrow> string \<Rightarrow> string set \<Rightarrow> string set \<Rightarrow> bool"
  for iter alphabets language_code where
  start: "reaches iter alphabets language_code S S"
| round: "reaches iter alphabets language_code S W \<Longrightarrow>
          alphabets (lower language_code) = Some A \<Longrightarrow> W \<noteq> {} \<Longrightarrow>
          \<forall>e \<in> options_loop A W. fst (validate_bnf_groups e) \<Longrightarrow>
          fst (are_all_words_only alphabets (iter (round_output A W)) (lower language_code))
            = Inr False \<Longrightarrow>
          reaches iter alphabets language_code S (round_output A W)"

text \<open>The stack of the validator holds opening brackets only.\<close>

definition openers_only :: "(char \<times> nat) list \<Rightarrow> bool" where
  "openers_only st \<longleftrightarrow> (\<forall>e \<in> set st. fst e = CHR ''('' \<or> fst e = CHR ''['')"

text \<open>Modelled from the spec: the table of alphabets is not among the sources. The spec's
  data model has a class define the word-only content of a language, and a final sentence
  hold no grammar punctuation; so a class of the table holds none of \<open>( ) [ ] |\<close>.\<close>

definition word_class :: "char set \<Rightarrow> bool" where
  "word_class A \<longleftrightarrow> A \<inter> punctuation = {}"

text \<open>A candidate written with characters of the class and grammar punctuation only.\<close>

definition clean :: "char set \<Rightarrow> string \<Rightarrow> bool" where
  "clean A s \<longleftrightarrow> set s \<subseteq> A \<union> punctuation"

text \<open>The number of punctuation characters of a candidate.\<close>

definition pcount :: "string \<Rightarrow> nat" where
  "pcount s = length (filter (\<lambda>c. c \<in> punctuation) s)"

section \<open>The language of a pattern\<close>

text \<open>The words a pattern matches, used to reason about the matcher: \<open>star_lang X\<close> holds
  the concatenations of words of \<open>X\<close>.\<close>

inductive_set star_lang :: "string set \<Rightarrow> string set" for X where
  Nil: "[] \<in> star_lang X"
| step: "u \<in> X \<Longrightarrow> v \<in> star_lang X \<Longrightarrow> u @ v \<in> star_lang X"

primrec rx_lang :: "rx \<Rightarrow> string set" where
  "rx_lang (Class A) = {[c] | c. c \<in> A}"
| "rx_lang (Lit a) = {[a]}"
| "rx_lang (Cat r1 r2) = {u @ v | u v. u \<in> rx_lang r1 \<and> v \<in> rx_lang r2}"
| "rx_lang (Alt r1 r2) = rx_lang r1 \<union> rx_lang r2"
| "rx_lang (Star r) = star_lang (rx_lang r)"
| "rx_lang (Plus r) = {u @ v | u v. u \<in> rx_lang r \<and> v \<in> star_lang (rx_lang r)}"

text \<open>A block of the second alternative: one bar between two runs of the class.\<close>

definition bar_block :: "char set \<Rightarrow> string set" where
  "bar_block A = {u @ CHR ''|'' # v | u v. set u \<subseteq> A \<and> set v \<subseteq> A}"

text \<open>A pattern occurs in a string when some part of the string is a word of its language.\<close>

definition occurs_in :: "rx \<Rightarrow> string \<Rightarrow> bool" where
  "occurs_in r s \<longleftrightarrow> (\<exists>pre w post. s = pre @ w @ post \<and> w \<in> rx_lang r)"

section \<open>A sample language table\<close>

text \<open>The table of the repository is not among the sources; the examples below run on a
  table with one language, whose class holds the small letters and the space.\<close>

definition sample_class :: "char set" where
  "sample_class = set ''abcdefghijklmnopqrstuvwxyz ''"

definition sample_alphabets :: "string \<rightharpoonup> char set" where
  "sample_alphabets = [''en'' \<mapsto> sample_class]"

section \<open>The matcher and the language\<close>

lemma star_lang_rest:
  assumes "w \<in> star_lang X" "s = w @ t" "w \<noteq> []"
  shows "\<exists>u v. u \<in> X \<and> u \<noteq> [] \<and> v \<in> star_lang X \<and> s = u @ v @ t"
  using assms
proof (induction arbitrary: s rule: star_lang.induct)
  case Nil
  then show ?case by simp
next
  case (step u v)
  show ?case
  proof (cases "u = []")
    case True
    with step show ?thesis by simp
  next
    case False
    with step show ?thesis by auto
  qed
qed

lemma star_ends_set:
  assumes f: "\<And>s. set (f s) = {t. \<exists>w \<in> X. s = w @ t}"
  shows "length s \<le> n \<Longrightarrow> set (star_ends f n s) = {t. \<exists>w \<in> star_lang X. s = w @ t}"
proof (induction n arbitrary: s)
  case 0
  then show ?case by (auto intro: star_lang.Nil)
next
  case (Suc n)
  have IH: "set (star_ends f n t') = {t. \<exists>w \<in> star_lang X. t' = w @ t}"
    if "length t' < length s" for t'
    using that Suc.prems by (intro Suc.IH) simp
  show ?case
  proof (intro set_eqI iffI)
    fix t assume "t \<in> set (star_ends f (Suc n) s)"
    then consider "t = s" | t' where "t' \<in> set (f s)" "length t' < length s" "t \<in> set (star_ends f n t')"
      by auto
    then show "t \<in> {t. \<exists>w \<in> star_lang X. s = w @ t}"
    proof cases
      case 1
      then show ?thesis by (auto intro: star_lang.Nil)
    next
      case 2
      from 2(1) f obtain u where u: "u \<in> X" "s = u @ t'" by auto
      from 2(3) IH[OF 2(2)] obtain w where w: "w \<in> star_lang X" "t' = w @ t" by auto
      from u w have "u @ w \<in> star_lang X" "s = (u @ w) @ t" by (auto intro: star_lang.step)
      then show ?thesis by blast
    qed
  next
    fix t assume "t \<in> {t. \<exists>w \<in> star_lang X. s = w @ t}"
    then obtain w where w: "w \<in> star_lang X" "s = w @ t" by auto
    show "t \<in> set (star_ends f (Suc n) s)"
    proof (cases "w = []")
      case True
      with w show ?thesis by simp
    next
      case False
      from star_lang_rest[OF w False] obtain u v where
        uv: "u \<in> X" "u \<noteq> []" "v \<in> star_lang X" "s = u @ v @ t" by blast
      then have "v @ t \<in> set (f s)" using f by auto
      moreover have "length (v @ t) < length s" using uv by simp
      moreover have "t \<in> set (star_ends f n (v @ t))"
        using IH[OF \<open>length (v @ t) < length s\<close>] uv(3) by auto
      ultimately show ?thesis by auto
    qed
  qed
qed

lemma rx_ends_set: "set (rx_ends r s) = {t. \<exists>w \<in> rx_lang r. s = w @ t}"
proof (induction r arbitrary: s)
  case (Class A)
  then show ?case by (cases s) auto
next
  case (Lit a)
  then show ?case by (cases s) auto
next
  case (Cat r1 r2)
  then show ?case by (auto simp: ) (metis append.assoc)+
next
  case (Alt r1 r2)
  then show ?case by auto
next
  case (Star r)
  then show ?case by (simp add: star_ends_set[where X = "rx_lang r"])
next
  case (Plus r)
  have *: "set (star_ends (rx_ends r) (length t) t) = {t'. \<exists>w \<in> star_lang (rx_lang r). t = w @ t'}" for t
    by (rule star_ends_set) (use Plus in auto)
  show ?case
    apply (auto simp: * Plus)
     apply (metis append.assoc)
    apply (metis append.assoc)
    done
qed

lemma star_lang_class: "star_lang (rx_lang (Class A)) = {w. set w \<subseteq> A}"
proof (intro set_eqI iffI)
  fix w assume "w \<in> star_lang (rx_lang (Class A))"
  then show "w \<in> {w. set w \<subseteq> A}"
    by (induction rule: star_lang.induct) auto
next
  fix w assume "w \<in> {w. set w \<subseteq> A}"
  then have "set w \<subseteq> A" by simp
  then show "w \<in> star_lang (rx_lang (Class A))"
  proof (induction w)
    case Nil
    show ?case by (rule star_lang.Nil)
  next
    case (Cons c w)
    then have "[c] \<in> rx_lang (Class A)" "w \<in> star_lang (rx_lang (Class A))" by auto
    then have "[c] @ w \<in> star_lang (rx_lang (Class A))" by (rule star_lang.step)
    then show ?case by simp
  qed
qed

lemma star_lang_over:
  assumes "w \<in> star_lang X" "\<And>u. u \<in> X \<Longrightarrow> set u \<subseteq> C"
  shows "set w \<subseteq> C"
  using assms by (induction rule: star_lang.induct) auto

lemma bar_block_lang:
  "rx_lang (Cat (Star (Class A)) (Cat (Lit (CHR ''|'')) (Star (Class A)))) = bar_block A"
  by (auto simp del: rx_lang.simps(1) simp add: star_lang_class bar_block_def)

lemma over_bar_cases:
  assumes "set w \<subseteq> insert (CHR ''|'') A"
  shows "set w \<subseteq> A \<or> w \<in> star_lang (bar_block A)"
  using assms
proof (induction w)
  case Nil
  then show ?case by simp
next
  case (Cons c w)
  then have IH: "set w \<subseteq> A \<or> w \<in> star_lang (bar_block A)" by simp
  have one: "[CHR ''|''] \<in> bar_block A"
    unfolding bar_block_def by (rule CollectI, rule exI[of _ "[]"], rule exI[of _ "[]"]) simp
  show ?case
  proof (cases "c \<in> A")
    case inA: True
    from IH show ?thesis
    proof
      assume "set w \<subseteq> A" with inA show ?thesis by simp
    next
      assume "w \<in> star_lang (bar_block A)"
      then show ?thesis
      proof (cases rule: star_lang.cases)
        case Nil
        with inA show ?thesis by simp
      next
        case (step u v)
        from step(2) obtain a b where ab: "u = a @ CHR ''|'' # b" "set a \<subseteq> A" "set b \<subseteq> A"
          unfolding bar_block_def by auto
        have "(c # a) @ CHR ''|'' # b \<in> bar_block A"
          unfolding bar_block_def using ab inA by (intro CollectI exI[of _ "c # a"] exI[of _ b]) simp
        then have "((c # a) @ CHR ''|'' # b) @ v \<in> star_lang (bar_block A)"
          using step(3) by (rule star_lang.step)
        then show ?thesis using step(1) ab(1) by simp
      qed
    qed
  next
    case False
    with Cons.prems have c: "c = CHR ''|''" by auto
    from IH show ?thesis
    proof
      assume "set w \<subseteq> A"
      then have "[] @ CHR ''|'' # w \<in> bar_block A" 
        unfolding bar_block_def by (intro CollectI exI[of _ "[]"] exI[of _ w]) simp
      then have "([] @ CHR ''|'' # w) @ [] \<in> star_lang (bar_block A)"
        using star_lang.Nil by (rule star_lang.step)
      then show ?thesis using c by simp
    next
      assume "w \<in> star_lang (bar_block A)"
      with one have "[CHR ''|''] @ w \<in> star_lang (bar_block A)" by (rule star_lang.step)
      then show ?thesis using c by simp
    qed
  qed
qed

lemma alternation_lang: "rx_lang (alternation A) = {w. set w \<subseteq> insert (CHR ''|'') A}"
proof (intro set_eqI iffI)
  fix w assume w: "w \<in> rx_lang (alternation A)"
  define L where "L = Star (Class A)"
  define bar where "bar = Lit (CHR ''|'')"
  have L: "rx_lang L = {w. set w \<subseteq> A}"
    by (simp add: L_def star_lang_class del: rx_lang.simps(1))
  have b2: "set u \<subseteq> insert (CHR ''|'') A" if "u \<in> rx_lang (Cat L (Cat bar L))" for u
    using that by (auto simp: L bar_def)
  have b3: "set u \<subseteq> insert (CHR ''|'') A" if "u \<in> rx_lang (Cat L (Cat bar (Cat L (Cat bar L))))" for u
    using that by (auto simp: L bar_def)
  from w have "w \<in> rx_lang L \<or> w \<in> star_lang (rx_lang (Cat L (Cat bar L)))
       \<or> w \<in> star_lang (rx_lang (Cat L (Cat bar (Cat L (Cat bar L)))))"
    by (simp only: alternation_def Let_def rx_lang.simps(4) rx_lang.simps(5) Un_iff L_def bar_def)
  then have "set w \<subseteq> insert (CHR ''|'') A"
    using star_lang_over[OF _ b2] star_lang_over[OF _ b3] L by blast
  then show "w \<in> {w. set w \<subseteq> insert (CHR ''|'') A}" by simp
next
  fix w assume "w \<in> {w. set w \<subseteq> insert (CHR ''|'') A}"
  then have "set w \<subseteq> A \<or> w \<in> star_lang (bar_block A)"
    using over_bar_cases by simp
  then have "w \<in> rx_lang (Star (Class A)) \<or>
      w \<in> rx_lang (Star (Cat (Star (Class A)) (Cat (Lit (CHR ''|'')) (Star (Class A)))))"
    by (simp only: rx_lang.simps(5) star_lang_class bar_block_lang mem_Collect_eq)
  then show "w \<in> rx_lang (alternation A)"
    by (simp only: alternation_def Let_def rx_lang.simps(4) Un_iff) blast
qed

lemma rx_ends_Nil_iff: "rx_ends r s = [] \<longleftrightarrow> (\<forall>w t. s = w @ t \<longrightarrow> w \<notin> rx_lang r)"
proof -
  have "rx_ends r s = [] \<longleftrightarrow> set (rx_ends r s) = {}" by simp
  also have "\<dots> \<longleftrightarrow> (\<forall>w t. s = w @ t \<longrightarrow> w \<notin> rx_lang r)"
    unfolding rx_ends_set by blast
  finally show ?thesis .
qed

lemma occurs_in_Nil: "occurs_in r [] \<longleftrightarrow> [] \<in> rx_lang r"
  unfolding occurs_in_def by simp

lemma occurs_in_Cons:
  "occurs_in r (c # cs) \<longleftrightarrow> (\<exists>w t. c # cs = w @ t \<and> w \<in> rx_lang r) \<or> occurs_in r cs"
proof
  assume "occurs_in r (c # cs)"
  then obtain pre w post where h: "c # cs = pre @ w @ post" "w \<in> rx_lang r"
    unfolding occurs_in_def by blast
  show "(\<exists>w t. c # cs = w @ t \<and> w \<in> rx_lang r) \<or> occurs_in r cs"
  proof (cases pre)
    case Nil
    with h show ?thesis by auto
  next
    case (Cons p pre')
    with h have "cs = pre' @ w @ post" by simp
    with h(2) show ?thesis unfolding occurs_in_def by blast
  qed
next
  assume "(\<exists>w t. c # cs = w @ t \<and> w \<in> rx_lang r) \<or> occurs_in r cs"
  then show "occurs_in r (c # cs)"
  proof
    assume "\<exists>w t. c # cs = w @ t \<and> w \<in> rx_lang r"
    then obtain w t where "c # cs = [] @ w @ t" "w \<in> rx_lang r" by auto
    then show ?thesis unfolding occurs_in_def by blast
  next
    assume "occurs_in r cs"
    then obtain pre w post where "cs = pre @ w @ post" "w \<in> rx_lang r"
      unfolding occurs_in_def by blast
    then have "c # cs = (c # pre) @ w @ post" "w \<in> rx_lang r" by simp_all
    then show ?thesis unfolding occurs_in_def by blast
  qed
qed

lemma rx_search_None_occurs: "rx_search r s = None \<longleftrightarrow> \<not> occurs_in r s"
proof (induction s)
  case Nil
  have "rx_ends r [] = [] \<longleftrightarrow> [] \<notin> rx_lang r"
    unfolding rx_ends_Nil_iff by simp
  then show ?case
    by (cases "rx_ends r []") (simp_all add: occurs_in_Nil)
next
  case (Cons c cs)
  show ?case
  proof (cases "rx_ends r (c # cs)")
    case Nil
    then have "\<not> (\<exists>w t. c # cs = w @ t \<and> w \<in> rx_lang r)"
      unfolding rx_ends_Nil_iff by blast
    then have "occurs_in r (c # cs) \<longleftrightarrow> occurs_in r cs"
      unfolding occurs_in_Cons by blast
    moreover have "rx_search r (c # cs) = rx_search r cs"
      using Nil by simp
    ultimately show ?thesis using Cons.IH by simp
  next
    case (Cons e es)
    then have "rx_ends r (c # cs) \<noteq> []" by simp
    then have "\<exists>w t. c # cs = w @ t \<and> w \<in> rx_lang r"
      unfolding rx_ends_Nil_iff by blast
    then have "occurs_in r (c # cs)"
      unfolding occurs_in_Cons by blast
    moreover have "rx_search r (c # cs) \<noteq> None"
      using Cons by simp
    ultimately show ?thesis by simp
  qed
qed

lemma rx_search_Some:
  "rx_search r s = Some g \<Longrightarrow> g \<in> rx_lang r \<and> (\<exists>pre post. s = pre @ g @ post)"
proof (induction s)
  case Nil
  then have "rx_ends r [] \<noteq> []" "g = []" by (auto split: list.splits)
  then have "[] \<in> rx_lang r" using rx_ends_set[of r "[]"] by (cases "rx_ends r []") auto
  with \<open>g = []\<close> show ?case by simp
next
  case (Cons c cs)
  show ?case
  proof (cases "rx_ends r (c # cs)")
    case Nil
    with Cons obtain pre post where "g \<in> rx_lang r" "cs = pre @ g @ post" by auto
    then have "c # cs = (c # pre) @ g @ post" by simp
    with \<open>g \<in> rx_lang r\<close> show ?thesis by blast
  next
    case (Cons e es)
    then have "e \<in> set (rx_ends r (c # cs))" by simp
    then obtain w where w: "w \<in> rx_lang r" "c # cs = w @ e"
      using rx_ends_set[of r "c # cs"] by auto
    from Cons Cons.prems have "g = take (length (c # cs) - length e) (c # cs)" by simp
    with w have "g = w" by simp
    with w have "c # cs = [] @ g @ e" by simp
    with w \<open>g = w\<close> show ?thesis by blast
  qed
qed

lemma groups_lang:
  "rx_lang (GROUPS_REGEX A) = {CHR ''('' # w @ [CHR '')''] | w. set w \<subseteq> insert (CHR ''|'') A}"
  unfolding GROUPS_REGEX_def by (auto simp: alternation_lang)

lemma optionals_lang:
  "rx_lang (OPTIONALS_REGEX A) = {CHR ''['' # w @ [CHR '']''] | w. set w \<subseteq> insert (CHR ''|'') A}"
  unfolding OPTIONALS_REGEX_def by (auto simp: alternation_lang)

lemma options_fullmatch:
  "rx_fullmatch (OPTIONS_REGEX A) s = (if set s \<subseteq> insert (CHR ''|'') A then Some s else None)"
  unfolding rx_fullmatch_def OPTIONS_REGEX_def
  using rx_ends_set[of "alternation A" s] by (auto simp: alternation_lang)

text \<open>The word pattern is greedy: its first match is the longest run of the class.\<close>

lemma star_class_hd_gen:
  assumes f: "\<And>c t. f (c # t) = (if c \<in> A then [t] else [])"
  shows "length s \<le> n \<Longrightarrow> \<exists>es. star_ends f n s = dropWhile (\<lambda>c. c \<in> A) s # es"
proof (induction n arbitrary: s)
  case 0
  then show ?case by simp
next
  case (Suc n)
  show ?case
  proof (cases s)
    case Nil
    then show ?thesis by simp
  next
    case (Cons c t)
    show ?thesis
    proof (cases "c \<in> A")
      case True
      from Suc.prems Cons have "length t \<le> n" by simp
      from Suc.IH[OF this] obtain es where
        es: "star_ends f n t = dropWhile (\<lambda>c. c \<in> A) t # es" ..
      with True Cons f show ?thesis by simp
    next
      case False
      with Cons f show ?thesis by simp
    qed
  qed
qed

lemma star_class_hd:
  "\<exists>es. star_ends (rx_ends (Class A)) (length s) s = dropWhile (\<lambda>c. c \<in> A) s # es"
  by (rule star_class_hd_gen) simp_all

lemma length_takeWhile_dropWhile:
  "length (takeWhile P cs) + length (dropWhile P cs) = length cs"
  by (induction cs) auto

lemma take_drop_while_len:
  "take (Suc (length cs) - length (dropWhile P cs)) (c # cs) = c # takeWhile P cs"
proof -
  have "Suc (length cs) - length (dropWhile P cs) = Suc (length (takeWhile P cs))"
    using length_takeWhile_dropWhile[of P cs] by simp
  then show ?thesis by (simp add: takeWhile_eq_take[symmetric])
qed

lemma words_ends_in:
  assumes "c \<in> A"
  shows "\<exists>es. rx_ends (WORDS_REGEX A) (c # cs) = dropWhile (\<lambda>c. c \<in> A) cs # es"
proof -
  obtain es where es: "star_ends (rx_ends (Class A)) (length cs) cs = dropWhile (\<lambda>c. c \<in> A) cs # es"
    using star_class_hd by blast
  have "rx_ends (WORDS_REGEX A) (c # cs) = star_ends (rx_ends (Class A)) (length cs) cs"
    unfolding WORDS_REGEX_def using assms by simp
  with es show ?thesis by simp
qed

lemma words_ends_out: "c \<notin> A \<Longrightarrow> rx_ends (WORDS_REGEX A) (c # cs) = []"
  unfolding WORDS_REGEX_def by simp

lemma words_search:
  "rx_search (WORDS_REGEX A) s =
     (case dropWhile (\<lambda>c. c \<notin> A) s of [] \<Rightarrow> None | c # t \<Rightarrow> Some (takeWhile (\<lambda>c. c \<in> A) (c # t)))"
proof (induction s)
  case Nil
  then show ?case by (simp add: WORDS_REGEX_def)
next
  case (Cons c cs)
  show ?case
  proof (cases "c \<in> A")
    case True
    from words_ends_in[OF True] obtain es where
      "rx_ends (WORDS_REGEX A) (c # cs) = dropWhile (\<lambda>c. c \<in> A) cs # es" by blast
    then have "rx_search (WORDS_REGEX A) (c # cs) =
        Some (take (Suc (length cs) - length (dropWhile (\<lambda>c. c \<in> A) cs)) (c # cs))"
      by simp
    with True show ?thesis by (simp add: take_drop_while_len)
  next
    case False
    with Cons words_ends_out[OF False] show ?thesis by simp
  qed
qed

text \<open>The shape of a matched group or optional.\<close>

lemma optional_match_shape:
  assumes "rx_search (OPTIONALS_REGEX A) s = Some g"
  shows "\<exists>w pre post. g = CHR ''['' # w @ [CHR '']''] \<and> set w \<subseteq> insert (CHR ''|'') A \<and> s = pre @ g @ post"
  using rx_search_Some[OF assms] unfolding optionals_lang by blast

lemma group_match_shape:
  assumes "rx_search (GROUPS_REGEX A) s = Some g"
  shows "\<exists>w pre post. g = CHR ''('' # w @ [CHR '')''] \<and> set w \<subseteq> insert (CHR ''|'') A \<and> s = pre @ g @ post"
  using rx_search_Some[OF assms] unfolding groups_lang by blast

section \<open>Replacing in strings\<close>

lemma take_eq_prefix: "take (length old) s = old \<longleftrightarrow> (\<exists>post. s = old @ post)"
  by (metis append_eq_conv_conj append_take_drop_id)

lemma replace_first_least:
  assumes "s = pre @ old @ post"
    and "\<And>pre' post'. s = pre' @ old @ post' \<Longrightarrow> length pre \<le> length pre'"
  shows "replace_first old new s = pre @ new @ post"
  using assms
proof (induction pre arbitrary: s)
  case Nil
  then have s: "s = old @ post" by simp
  show ?case
  proof (cases s)
    case Nil
    with s show ?thesis by simp
  next
    case (Cons c cs)
    have "take (length old) (c # cs) = old" using s Cons by (metis take_eq_prefix)
    moreover have "drop (length old) (c # cs) = post" using s Cons by (metis append_eq_conv_conj)
    ultimately show ?thesis using Cons by simp
  qed
next
  case (Cons p pre)
  then have s: "s = p # (pre @ old @ post)" by simp
  have no: "take (length old) s \<noteq> old"
  proof
    assume "take (length old) s = old"
    then obtain post' where "s = [] @ old @ post'" using take_eq_prefix by auto
    from Cons.prems(2)[OF this] show False by simp
  qed
  have least: "length pre \<le> length pre'" if "pre @ old @ post = pre' @ old @ post'" for pre' post'
  proof -
    from that s have "s = (p # pre') @ old @ post'" by simp
    from Cons.prems(2)[OF this] show ?thesis by simp
  qed
  have "replace_first old new (pre @ old @ post) = pre @ new @ post"
    by (rule Cons.IH[OF refl]) (use least in blast)
  with no s show ?case by simp
qed

lemma replace_first_occurrence:
  assumes "\<exists>pre post. s = pre @ old @ post"
  shows "\<exists>pre post. s = pre @ old @ post \<and> replace_first old new s = pre @ new @ post"
  using assms
proof (induction s)
  case Nil
  then show ?case by auto
next
  case (Cons c cs)
  show ?case
  proof (cases "take (length old) (c # cs) = old")
    case True
    then have "c # cs = [] @ old @ drop (length old) (c # cs)"
      by (metis append_Nil append_take_drop_id)
    moreover have "replace_first old new (c # cs) = [] @ new @ drop (length old) (c # cs)"
      using True by simp
    ultimately show ?thesis by blast
  next
    case False
    from Cons.prems obtain pre post where h: "c # cs = pre @ old @ post" by blast
    have "pre \<noteq> []"
    proof
      assume "pre = []"
      with h have "c # cs = old @ post" by simp
      then have "take (length old) (c # cs) = old" by (metis take_eq_prefix)
      with False show False by simp
    qed
    then obtain pre' where "pre = c # pre'" "cs = pre' @ old @ post" using h by (cases pre) auto
    then have "\<exists>pre post. cs = pre @ old @ post" by blast
    from Cons.IH[OF this] obtain q r where qr: "cs = q @ old @ r" "replace_first old new cs = q @ new @ r"
      by blast
    then have "c # cs = (c # q) @ old @ r" "replace_first old new (c # cs) = (c # q) @ new @ r"
      using False by simp_all
    then show ?thesis by blast
  qed
qed

lemma replace_first_absent:
  assumes "\<not> (\<exists>pre post. s = pre @ old @ post)"
  shows "replace_first old new s = s"
  using assms
proof (induction s)
  case Nil
  then have "old \<noteq> []" by auto
  then show ?case by simp
next
  case (Cons c cs)
  have no: "take (length old) (c # cs) \<noteq> old"
  proof
    assume "take (length old) (c # cs) = old"
    then have "c # cs = [] @ old @ drop (length old) (c # cs)"
      by (metis append_Nil append_take_drop_id)
    with Cons.prems show False by blast
  qed
  have "\<not> (\<exists>pre post. cs = pre @ old @ post)"
  proof
    assume "\<exists>pre post. cs = pre @ old @ post"
    then obtain pre post where "cs = pre @ old @ post" by blast
    then have "c # cs = (c # pre) @ old @ post" by simp
    with Cons.prems show False by blast
  qed
  with Cons.IH no show ?case by simp
qed

lemma split_options_unfold:
  "split_options s = map strip (split_on (CHR ''|'') (filter (\<lambda>c. c \<notin> brackets) s))"
  by (simp add: split_options_def remove_from_string_def brackets_def)

lemma first_occ_example:
  "\<forall>pre' post'. ''x (a|a |b) (a|a |b)'' = pre' @ ''(a|a |b)'' @ post' \<longrightarrow> length ''x '' \<le> length pre'"
proof (intro allI impI)
  fix pre' post' :: string
  assume h: "''x (a|a |b) (a|a |b)'' = pre' @ ''(a|a |b)'' @ post'"
  show "length ''x '' \<le> length pre'"
  proof (cases pre')
    case Nil
    with h show ?thesis by simp
  next
    case (Cons p q)
    show ?thesis
    proof (cases q)
      case Nil
      with Cons h show ?thesis by simp
    next
      case (Cons p' q')
      with \<open>pre' = p # q\<close> show ?thesis by simp
    qed
  qed
qed

text \<open>Collapsing double spaces: what \<^verbatim>\<open>replace('  ', ' ')\<close> does to a run of spaces.\<close>

lemma collapse_other:
  "c \<noteq> CHR '' '' \<Longrightarrow> replace_all ''  '' '' '' (c # rest) = c # replace_all ''  '' '' '' rest"
  by (subst replace_all.simps) simp

lemma collapse_pair:
  "replace_all ''  '' '' '' (CHR '' '' # CHR '' '' # rest) = CHR '' '' # replace_all ''  '' '' '' rest"
  by (subst replace_all.simps) simp

lemma collapse_Nil: "replace_all ''  '' '' '' [] = []"
  by (subst replace_all.simps) simp

lemma collapse_single:
  "rest = [] \<or> hd rest \<noteq> CHR '' '' \<Longrightarrow>
     replace_all ''  '' '' '' (CHR '' '' # rest) = CHR '' '' # replace_all ''  '' '' '' rest"
  by (subst replace_all.simps) (cases rest; auto)

lemma collapse_run:
  assumes "rest = [] \<or> hd rest \<noteq> CHR '' ''"
  shows "replace_all ''  '' '' '' (replicate k (CHR '' '') @ rest) =
           replicate ((k + 1) div 2) (CHR '' '') @ replace_all ''  '' '' '' rest"
proof (induction k rule: less_induct)
  case (less k)
  consider "k = 0" | "k = 1" | j where "k = Suc (Suc j)"
    by (metis One_nat_def not0_implies_Suc)
  then show ?case
  proof cases
    case 1
    then show ?thesis by simp
  next
    case 2
    then show ?thesis using collapse_single[OF assms] by simp
  next
    case 3
    have "replace_all ''  '' '' '' (replicate j (CHR '' '') @ rest) =
           replicate ((j + 1) div 2) (CHR '' '') @ replace_all ''  '' '' '' rest"
      using less[of j] 3 by simp
    then show ?thesis using 3 by (simp add: collapse_pair)
  qed
qed

section \<open>The validator\<close>

lemma openers_only_simps [simp]:
  "openers_only []"
  "openers_only (e # st) \<longleftrightarrow> (fst e = CHR ''('' \<or> fst e = CHR ''['') \<and> openers_only st"
  by (auto simp: openers_only_def)

lemma openers_only_tl: "openers_only st \<Longrightarrow> openers_only (tl st)"
  by (cases st) auto

lemma balanced_insert:
  assumes "balanced w" "balanced x" "w = u @ v"
  shows "balanced (u @ x @ v)"
  using assms(1,3)
proof (induction arbitrary: u v rule: balanced.induct)
  case empty
  then show ?case using assms(2) by simp
next
  case (other c)
  then consider "u = []" "v = [c]" | "u = [c]" "v = []"
    by (auto simp: Cons_eq_append_conv)
  then show ?case
  proof cases
    case 1
    then show ?thesis using balanced.sequence[OF assms(2) balanced.other[OF other(1)]] by simp
  next
    case 2
    then show ?thesis using balanced.sequence[OF balanced.other[OF other(1)] assms(2)] by simp
  qed
next
  case (group w)
  have whole: "balanced (CHR ''('' # w @ [CHR '')''])" using group(1) by (rule balanced.group)
  show ?case
  proof (cases u)
    case Nil
    with group(3) show ?thesis using balanced.sequence[OF assms(2) whole] by simp
  next
    case (Cons a u')
    with group(3) have a: "a = CHR ''(''" and eq: "w @ [CHR '')''] = u' @ v" by auto
    show ?thesis
    proof (cases v rule: rev_cases)
      case Nil
      with eq Cons a show ?thesis using balanced.sequence[OF whole assms(2)] by simp
    next
      case (snoc v' z)
      with eq have "w = u' @ v'" "z = CHR '')''" by auto
      from group(2)[OF this(1)] have "balanced (CHR ''('' # (u' @ x @ v') @ [CHR '')''])"
        by (rule balanced.group)
      with Cons a snoc \<open>z = CHR '')''\<close> show ?thesis by simp
    qed
  qed
next
  case (optional w)
  have whole: "balanced (CHR ''['' # w @ [CHR '']''])" using optional(1) by (rule balanced.optional)
  show ?case
  proof (cases u)
    case Nil
    with optional(3) show ?thesis using balanced.sequence[OF assms(2) whole] by simp
  next
    case (Cons a u')
    with optional(3) have a: "a = CHR ''[''" and eq: "w @ [CHR '']''] = u' @ v" by auto
    show ?thesis
    proof (cases v rule: rev_cases)
      case Nil
      with eq Cons a show ?thesis using balanced.sequence[OF whole assms(2)] by simp
    next
      case (snoc v' z)
      with eq have "w = u' @ v'" "z = CHR '']''" by auto
      from optional(2)[OF this(1)] have "balanced (CHR ''['' # (u' @ x @ v') @ [CHR '']''])"
        by (rule balanced.optional)
      with Cons a snoc \<open>z = CHR '']''\<close> show ?thesis by simp
    qed
  qed
next
  case (sequence a b)
  from sequence(5) consider t where "a = u @ t" "v = t @ b" | t where "u = a @ t" "b = t @ v"
    by (auto simp: append_eq_append_conv2)
  then show ?case
  proof cases
    case 1
    from sequence(3)[OF 1(1)] sequence(2) have "balanced ((u @ x @ t) @ b)" by (rule balanced.sequence)
    with 1 show ?thesis by simp
  next
    case 2
    from sequence(1) sequence(4)[OF 2(2)] have "balanced (a @ (t @ x @ v))" by (rule balanced.sequence)
    with 2 show ?thesis by simp
  qed
qed

lemma balanced_pair_group: "balanced ''()''"
  using balanced.group[OF balanced.empty] by simp

lemma balanced_pair_optional: "balanced ''[]''"
  using balanced.optional[OF balanced.empty] by simp

lemma validate_loop_skip:
  assumes "balanced w"
  shows "validate_loop (w @ rest) i st = validate_loop rest (i + length w) st"
  using assms
proof (induction arbitrary: rest i st rule: balanced.induct)
  case empty
  then show ?case by simp
next
  case (other c)
  then show ?case by (simp add: brackets_def)
next
  case (group w)
  have "validate_loop ((CHR ''('' # w @ [CHR '')'']) @ rest) i st =
      validate_loop (w @ (CHR '')'' # rest)) (i + 1) ((CHR ''('', i) # st)"
    by simp
  also have "\<dots> = validate_loop (CHR '')'' # rest) (i + 1 + length w) ((CHR ''('', i) # st)"
    by (rule group.IH)
  also have "\<dots> = validate_loop rest (i + length (CHR ''('' # w @ [CHR '')''])) st"
    by (simp add: add.commute add.left_commute)
  finally show ?case .
next
  case (optional w)
  have "validate_loop ((CHR ''['' # w @ [CHR '']'']) @ rest) i st =
      validate_loop (w @ (CHR '']'' # rest)) (i + 1) ((CHR ''['', i) # st)"
    by simp
  also have "\<dots> = validate_loop (CHR '']'' # rest) (i + 1 + length w) ((CHR ''['', i) # st)"
    by (rule optional.IH)
  also have "\<dots> = validate_loop rest (i + length (CHR ''['' # w @ [CHR '']''])) st"
    by (simp add: add.commute add.left_commute)
  finally show ?case .
next
  case (sequence u v)
  have "validate_loop ((u @ v) @ rest) i st = validate_loop (u @ (v @ rest)) i st"
    by simp
  also have "\<dots> = validate_loop (v @ rest) (i + length u) st"
    by (rule sequence.IH(1))
  also have "\<dots> = validate_loop rest (i + length u + length v) st"
    by (rule sequence.IH(2))
  finally show ?case by (simp add: add.assoc)
qed

lemma validate_loop_sound:
  assumes "openers_only st" "fst (validate_loop s i st)"
  shows "balanced (rev (map fst st) @ s)"
  using assms
proof (induction s arbitrary: i st)
  case Nil
  then have "st = []" by (simp split: if_splits)
  then show ?case by (simp add: balanced.empty)
next
  case (Cons c cs)
  consider (opener) "c = CHR ''('' \<or> c = CHR ''[''" | (cg) "c = CHR '')''" | (co) "c = CHR '']''"
    | (other) "c \<notin> brackets"
    by (auto simp: brackets_def)
  then show ?case
  proof cases
    case opener
    with Cons.prems have "fst (validate_loop cs (i + 1) ((c, i) # st))" by auto
    moreover have "openers_only ((c, i) # st)" using opener Cons.prems(1) by simp
    ultimately have "balanced (rev (map fst ((c, i) # st)) @ cs)" by (rule Cons.IH[rotated])
    then show ?thesis by simp
  next
    case cg
    show ?thesis
    proof (cases st)
      case Nil
      with cg Cons.prems show ?thesis by simp
    next
      case (Cons e st')
      with Cons.prems(1) have e: "fst e = CHR ''('' \<or> fst e = CHR ''[''" and o: "openers_only st'"
        by simp_all
      from e Cons.prems(2) cg Cons have eg: "fst e = CHR ''(''" by auto
      with Cons.prems(2) cg Cons have "fst (validate_loop cs (i + 1) st')" by simp
      with o have "balanced (rev (map fst st') @ cs)" by (rule Cons.IH)
      from this balanced_pair_group refl have "balanced (rev (map fst st') @ ''()'' @ cs)"
        by (rule balanced_insert)
      with eg cg Cons show ?thesis by simp
    qed
  next
    case co
    show ?thesis
    proof (cases st)
      case Nil
      with co Cons.prems show ?thesis by simp
    next
      case (Cons e st')
      with Cons.prems(1) have e: "fst e = CHR ''('' \<or> fst e = CHR ''[''" and o: "openers_only st'"
        by simp_all
      from e Cons.prems(2) co Cons have eg: "fst e = CHR ''[''" by auto
      with Cons.prems(2) co Cons have "fst (validate_loop cs (i + 1) st')" by simp
      with o have "balanced (rev (map fst st') @ cs)" by (rule Cons.IH)
      from this balanced_pair_optional refl have "balanced (rev (map fst st') @ ''[]'' @ cs)"
        by (rule balanced_insert)
      with eg co Cons show ?thesis by simp
    qed
  next
    case other
    with Cons.prems(2) have "fst (validate_loop cs (i + 1) st)" by (simp add: brackets_def)
    with Cons.prems(1) have "balanced (rev (map fst st) @ cs)" by (rule Cons.IH)
    from this balanced.other[OF other] refl have "balanced (rev (map fst st) @ [c] @ cs)"
      by (rule balanced_insert)
    then show ?thesis by simp
  qed
qed

lemma validate_loop_log:
  assumes "openers_only st"
  shows "snd (validate_loop s i st) = [] \<longleftrightarrow> fst (validate_loop s i st)"
  using assms
proof (induction s arbitrary: i st)
  case Nil
  show ?case
  proof (cases st)
    case Nil
    then show ?thesis by simp
  next
    case (Cons e st')
    with Nil have "fst e = CHR ''('' \<or> fst e = CHR ''[''" by simp
    with Cons show ?thesis by (cases e) auto
  qed
next
  case (Cons c cs)
  consider (opener) "c = CHR ''('' \<or> c = CHR ''[''" | (cg) "c = CHR '')''" | (co) "c = CHR '']''"
    | (other) "c \<notin> brackets"
    by (auto simp: brackets_def)
  then show ?case
  proof cases
    case opener
    have "openers_only ((c, i) # st)" using opener Cons.prems by simp
    from Cons.IH[OF this] opener show ?thesis by auto
  next
    case cg
    show ?thesis
    proof (cases st)
      case Nil
      with cg show ?thesis by simp
    next
      case (Cons e st')
      with Cons.prems have e: "fst e = CHR ''('' \<or> fst e = CHR ''[''" and o: "openers_only st'"
        by simp_all
      from Cons.IH[OF o] e cg Cons show ?thesis by auto
    qed
  next
    case co
    show ?thesis
    proof (cases st)
      case Nil
      with co show ?thesis by simp
    next
      case (Cons e st')
      with Cons.prems have e: "fst e = CHR ''('' \<or> fst e = CHR ''[''" and o: "openers_only st'"
        by simp_all
      from Cons.IH[OF o] e co Cons show ?thesis by auto
    qed
  next
    case other
    from Cons.IH[OF Cons.prems] other show ?thesis by (simp add: brackets_def)
  qed
qed

lemma validate_accepts_balanced:
  "fst (validate_bnf_groups bnf) = balanced bnf \<and>
   (snd (validate_bnf_groups bnf) = [] \<longleftrightarrow> balanced bnf)"
proof -
  have a: "balanced bnf" if "fst (validate_bnf_groups bnf)"
    using validate_loop_sound[of "[]" "bnf" 0] that by (simp add: validate_bnf_groups_def)
  have b: "fst (validate_bnf_groups bnf)" if "balanced bnf"
    using validate_loop_skip[OF that, of "[]" 0 "[]"] by (simp add: validate_bnf_groups_def)
  have c: "snd (validate_bnf_groups bnf) = [] \<longleftrightarrow> fst (validate_bnf_groups bnf)"
    using validate_loop_log[of "[]" "bnf" 0] by (simp add: validate_bnf_groups_def)
  from a b c show ?thesis by blast
qed


text \<open>
  C2: the validator returns true exactly for the strings whose brackets are well nested
  (every \<open>(\<close> closed by a \<open>)\<close>, every \<open>[\<close> by a \<open>]\<close>, pairs side by side or nested, never
  crossing), and it logs nothing exactly then: every false result (a closer of the wrong
  kind, a closer with nothing open, an opener left unclosed) comes with a diagnostic.
\<close>

theorem validate_iff_balanced:
  "fst (validate_bnf_groups bnf) = balanced bnf \<and>
   (snd (validate_bnf_groups bnf) = [] \<longleftrightarrow> balanced bnf)"
  by (rule validate_accepts_balanced)

theorem validate_iff_balanced_witness:
  "validate_bnf_groups ''(a|b) [c (d)]'' = (True, []) \<and> balanced ''(a|b) [c (d)]'' \<and>
   validate_bnf_groups ''(a|b]'' = (False, [Mismatch 4 (CHR ''('') (CHR '']'')]) \<and>
   \<not> balanced ''(a|b]'' \<and>
   validate_bnf_groups ''a)'' = (False, [ClosingWithoutOpener (CHR '')'') 1]) \<and>
   \<not> balanced ''a)'' \<and>
   validate_bnf_groups ''[(a'' =
     (False, [MissingClosing (CHR '']'') (CHR ''['') 0, MissingClosing (CHR '')'') (CHR ''('') 1]) \<and>
   \<not> balanced ''[(a''"
proof -
  have 1: "validate_bnf_groups ''(a|b) [c (d)]'' = (True, [])" by code_simp
  have 2: "validate_bnf_groups ''(a|b]'' = (False, [Mismatch 4 (CHR ''('') (CHR '']'')])"
    by code_simp
  have 3: "validate_bnf_groups ''a)'' = (False, [ClosingWithoutOpener (CHR '')'') 1])"
    by code_simp
  have 4: "validate_bnf_groups ''[(a'' =
     (False, [MissingClosing (CHR '']'') (CHR ''['') 0, MissingClosing (CHR '')'') (CHR ''('') 1])"
    by code_simp
  from validate_iff_balanced[of "''(a|b) [c (d)]''"] validate_iff_balanced[of "''(a|b]''"]
    validate_iff_balanced[of "''a)''"] validate_iff_balanced[of "''[(a''"] 1 2 3 4
  show ?thesis by simp
qed

section \<open>Pieces of a split and collapsed spaces\<close>

lemma pcount_append [simp]: "pcount (u @ v) = pcount u + pcount v"
  by (simp add: pcount_def)

lemma pcount_Nil [simp]: "pcount [] = 0"
  by (simp add: pcount_def)

lemma pcount_zero_iff: "pcount s = 0 \<longleftrightarrow> set s \<inter> punctuation = {}"
  by (auto simp: pcount_def filter_empty_conv)

lemma split_on_pieces: "p \<in> set (split_on sep s) \<Longrightarrow> set p \<subseteq> set s - {sep}"
proof (induction s arbitrary: p)
  case Nil
  then show ?case by simp
next
  case (Cons c cs)
  show ?case
  proof (cases "c = sep")
    case True
    with Cons show ?thesis by auto
  next
    case False
    show ?thesis
    proof (cases "split_on sep cs")
      case Nil
      with False Cons.prems show ?thesis by auto
    next
      case (Cons w ws)
      with False Cons.prems have "p = c # w \<or> p \<in> set ws" by auto
      moreover have "set w \<subseteq> set cs - {sep}" using Cons.IH[of w] Cons by simp
      moreover have "p \<in> set ws \<Longrightarrow> set p \<subseteq> set cs - {sep}" using Cons.IH[of p] Cons by simp
      ultimately show ?thesis using False by auto
    qed
  qed
qed

lemma split_on_not_Nil [simp]: "split_on sep s \<noteq> []"
  by (induction s) (auto split: list.splits)

lemma split_on_absent: "sep \<notin> set s \<Longrightarrow> split_on sep s = [s]"
  by (induction s) auto

lemma set_strip: "set (strip s) \<subseteq> set s"
proof -
  have "set (strip s) \<subseteq> set (dropWhile isspace s)"
    unfolding strip_def using set_dropWhileD by fastforce
  also have "\<dots> \<subseteq> set s" using set_dropWhileD by fastforce
  finally show ?thesis .
qed

lemma split_options_pieces:
  assumes "p \<in> set (split_options s)"
  shows "set p \<subseteq> set s - punctuation"
proof -
  from assms obtain q where q: "q \<in> set (split_on (CHR ''|'') (filter (\<lambda>c. c \<notin> brackets) s))"
    "p = strip q"
    unfolding split_options_unfold by auto
  from split_on_pieces[OF q(1)] have "set q \<subseteq> set s - punctuation"
    by (auto simp: punctuation_def)
  with set_strip[of q] q(2) show ?thesis by blast
qed

lemma split_options_not_Nil [simp]: "split_options s \<noteq> []"
  unfolding split_options_unfold by simp

lemma split_options_plain:
  assumes "set s \<inter> punctuation = {}"
  shows "split_options s = [strip s]"
proof -
  have "filter (\<lambda>c. c \<notin> brackets) s = s"
    using assms by (auto simp: punctuation_def filter_id_conv)
  moreover have "CHR ''|'' \<notin> set s" using assms by (auto simp: punctuation_def)
  ultimately show ?thesis unfolding split_options_unfold by (simp add: split_on_absent)
qed

lemma collapse_filter:
  "filter P (replace_all ''  '' '' '' s) = filter P s" if "\<not> P (CHR '' '')"
proof (induction s rule: length_induct)
  case (1 s)
  show ?case
  proof (cases s)
    case Nil
    then show ?thesis by (simp add: collapse_Nil)
  next
    case (Cons c t)
    show ?thesis
    proof (cases "c = CHR '' ''")
      case False
      with Cons 1 show ?thesis by (simp add: collapse_other)
    next
      case True
      show ?thesis
      proof (cases t)
        case Nil
        with True Cons that show ?thesis using collapse_single[of "[]"] by (simp add: collapse_Nil)
      next
        case (Cons d u)
        show ?thesis
        proof (cases "d = CHR '' ''")
          case True
          with Cons \<open>s = c # t\<close> \<open>c = CHR '' ''\<close> 1 that show ?thesis
            by (simp add: collapse_pair)
        next
          case False
          then have "replace_all ''  '' '' '' (CHR '' '' # t) = CHR '' '' # replace_all ''  '' '' '' t"
            using Cons by (intro collapse_single) simp
          with \<open>s = c # t\<close> \<open>c = CHR '' ''\<close> 1 that show ?thesis by simp
        qed
      qed
    qed
  qed
qed

lemma set_collapse: "set (replace_all ''  '' '' '' s) \<subseteq> set s"
proof
  fix c assume "c \<in> set (replace_all ''  '' '' '' s)"
  show "c \<in> set s"
  proof (cases "c = CHR '' ''")
    case False
    have "filter (\<lambda>x. x = c) (replace_all ''  '' '' '' s) = filter (\<lambda>x. x = c) s"
      using False by (intro collapse_filter) simp
    moreover have "c \<in> set (filter (\<lambda>x. x = c) (replace_all ''  '' '' '' s))"
      using \<open>c \<in> set (replace_all ''  '' '' '' s)\<close> by simp
    ultimately have "c \<in> set (filter (\<lambda>x. x = c) s)" by simp
    then show ?thesis by simp
  next
    case True
    have "set s \<inter> {CHR '' ''} = {} \<Longrightarrow> replace_all ''  '' '' '' s = s" for s
    proof (induction s)
      case Nil
      then show ?case by (simp add: collapse_Nil)
    next
      case (Cons a s)
      then have "a \<noteq> CHR '' ''" "replace_all ''  '' '' '' s = s" by auto
      then show ?case by (simp add: collapse_other)
    qed
    with True \<open>c \<in> set (replace_all ''  '' '' '' s)\<close> show ?thesis by fastforce
  qed
qed

lemma pcount_collapse: "pcount (replace_all ''  '' '' '' s) = pcount s"
  unfolding pcount_def by (simp add: collapse_filter punctuation_def brackets_def)

section \<open>The three loops on one candidate\<close>

lemma expand_options_cases:
  assumes "a \<in> expand_options A e"
  shows "(a = e \<and> (e = [] \<or> \<not> set e \<subseteq> insert (CHR ''|'') A)) \<or>
         (set e \<subseteq> insert (CHR ''|'') A \<and> e \<noteq> [] \<and> a \<in> set (split_options e))"
  using assms unfolding expand_options_def options_fullmatch
  by (auto split: if_splits)


lemma expand_options_not_empty: "expand_options A e \<noteq> {}"
  unfolding expand_options_def options_fullmatch by (auto split: if_splits)


lemma finite_expand_options: "finite (expand_options A e)"
  unfolding expand_options_def options_fullmatch by (auto split: if_splits)


lemma get_potential_options_cases:
  assumes "b \<in> get_potential_options a g" "\<exists>pre post. a = pre @ g @ post"
  shows "\<exists>pre post opt. a = pre @ g @ post \<and> opt \<in> set (split_options g) \<and> b = pre @ opt @ post"
proof -
  from assms(1) obtain opt where opt: "opt \<in> set (split_options g)" "b = replace_first g opt a"
    unfolding get_potential_options_def by auto
  from replace_first_occurrence[OF assms(2), of opt] obtain pre post where
    "a = pre @ g @ post" "replace_first g opt a = pre @ opt @ post" by blast
  with opt show ?thesis by blast
qed


lemma get_potential_options_not_empty: "get_potential_options a g \<noteq> {}"
  unfolding get_potential_options_def by simp


lemma finite_get_potential_options: "finite (get_potential_options a g)"
  unfolding get_potential_options_def by simp

lemma expand_group_cases:
  assumes "b \<in> expand_group A a"
  shows "(b = a \<and> rx_search (GROUPS_REGEX A) a = None) \<or>
         (\<exists>w pre post opt. a = pre @ (CHR ''('' # w @ [CHR '')'']) @ post \<and>
             set w \<subseteq> insert (CHR ''|'') A \<and>
             opt \<in> set (split_options (CHR ''('' # w @ [CHR '')''])) \<and> b = pre @ opt @ post)"
proof (cases "rx_search (GROUPS_REGEX A) a")
  case None
  with assms show ?thesis by (simp add: expand_group_def)
next
  case (Some g)
  from group_match_shape[OF Some] obtain w pre0 post0 where
    g: "g = CHR ''('' # w @ [CHR '')'']" "set w \<subseteq> insert (CHR ''|'') A" "a = pre0 @ g @ post0"
    by blast
  then have "g \<noteq> []" by simp
  with assms Some have "b \<in> get_potential_options a g" by (simp add: expand_group_def)
  from get_potential_options_cases[OF this] g(3) obtain pre post opt where
    "a = pre @ g @ post" "opt \<in> set (split_options g)" "b = pre @ opt @ post" by blast
  with g(1,2) show ?thesis by blast
qed


lemma expand_group_not_empty: "expand_group A a \<noteq> {}"
  unfolding expand_group_def
  by (auto split: option.splits simp: get_potential_options_not_empty)


lemma finite_expand_group: "finite (expand_group A a)"
  unfolding expand_group_def
  by (auto split: option.splits simp: finite_get_potential_options)

lemma expand_optional_unfold:
  "expand_optional A b =
     (case rx_search (OPTIONALS_REGEX A) b of
        None \<Rightarrow> {b}
      | Some g \<Rightarrow> if g = [] then {b}
                  else insert (replace_all ''  '' '' '' (replace_first g [] b))
                         (get_potential_options b g))"
  unfolding expand_optional_def Let_def ..

lemma expand_optional_not_empty: "expand_optional A b \<noteq> {}"
  unfolding expand_optional_unfold by (simp split: option.split)

lemma finite_expand_optional: "finite (expand_optional A b)"
  unfolding expand_optional_unfold by (simp split: option.split add: finite_get_potential_options)

lemma expand_optional_cases:
  assumes "d \<in> expand_optional A b"
  shows "(d = b \<and> rx_search (OPTIONALS_REGEX A) b = None) \<or>
         (\<exists>w pre post. b = pre @ (CHR ''['' # w @ [CHR '']'']) @ post \<and>
             set w \<subseteq> insert (CHR ''|'') A \<and>
             (d = replace_all ''  '' '' '' (pre @ post) \<or>
              (\<exists>opt \<in> set (split_options (CHR ''['' # w @ [CHR '']''])). d = pre @ opt @ post)))"
proof (cases "rx_search (OPTIONALS_REGEX A) b")
  case None
  with assms show ?thesis by (simp add: expand_optional_unfold)
next
  case (Some g)
  from optional_match_shape[OF Some] obtain w pre0 post0 where
    g: "g = CHR ''['' # w @ [CHR '']'']" "set w \<subseteq> insert (CHR ''|'') A" "b = pre0 @ g @ post0"
    by blast
  then have "g \<noteq> []" by simp
  with assms Some have "d = replace_all ''  '' '' '' (replace_first g [] b) \<or>
      d \<in> get_potential_options b g"
    by (simp add: expand_optional_unfold)
  then show ?thesis
  proof
    assume 1: "d = replace_all ''  '' '' '' (replace_first g [] b)"
    have "\<exists>pre post. b = pre @ g @ post" using g(3) by blast
    from replace_first_occurrence[OF this, of "[]"] obtain pre post where
      pp: "b = pre @ g @ post" "replace_first g [] b = pre @ post" by auto
    have "b = pre @ (CHR ''['' # w @ [CHR '']'']) @ post \<and>
             set w \<subseteq> insert (CHR ''|'') A \<and>
             (d = replace_all ''  '' '' '' (pre @ post) \<or>
              (\<exists>opt \<in> set (split_options (CHR ''['' # w @ [CHR '']''])). d = pre @ opt @ post))"
      using pp 1 g(1,2) by simp
    then show ?thesis by (intro disjI2 exI)
  next
    assume 2: "d \<in> get_potential_options b g"
    have "\<exists>pre post. b = pre @ g @ post" using g(3) by blast
    from get_potential_options_cases[OF 2 this] obtain pre post opt where
      pp: "b = pre @ g @ post" "opt \<in> set (split_options g)" "d = pre @ opt @ post" by blast
    have "b = pre @ (CHR ''['' # w @ [CHR '']'']) @ post \<and>
             set w \<subseteq> insert (CHR ''|'') A \<and>
             (d = replace_all ''  '' '' '' (pre @ post) \<or>
              (\<exists>opt \<in> set (split_options (CHR ''['' # w @ [CHR '']''])). d = pre @ opt @ post))"
      using pp g(1,2) by auto
    then show ?thesis by (intro disjI2 exI)
  qed
qed

lemma finite_options_loop: "finite S \<Longrightarrow> finite (options_loop A S)"
  unfolding options_loop_def by (simp add: finite_expand_options)


lemma finite_optionals_loop: "finite S \<Longrightarrow> finite (optionals_loop A S)"
  unfolding optionals_loop_def by (simp add: finite_expand_optional)


lemma finite_round_output: "finite S \<Longrightarrow> finite (round_output A S)"
  unfolding round_output_def
  by (intro finite_optionals_loop finite_UN_I finite_options_loop finite_expand_group)


lemma round_output_iff:
  "d \<in> round_output A S \<longleftrightarrow>
     (\<exists>e \<in> S. \<exists>a \<in> expand_options A e. \<exists>b \<in> expand_group A a. d \<in> expand_optional A b)"
  unfolding round_output_def optionals_loop_def options_loop_def by blast

section \<open>A round removes punctuation\<close>

lemma pcount_Cons: "pcount (c # s) = (if c \<in> punctuation then 1 else 0) + pcount s"
  by (simp add: pcount_def)

lemma pcount_pair_group: "2 \<le> pcount (CHR ''('' # w @ [CHR '')''])"
  by (simp add: pcount_Cons punctuation_def brackets_def)

lemma pcount_pair_optional: "2 \<le> pcount (CHR ''['' # w @ [CHR '']''])"
  by (simp add: pcount_Cons punctuation_def brackets_def)

lemma clean_append [simp]: "clean A (u @ v) \<longleftrightarrow> clean A u \<and> clean A v"
  by (auto simp: clean_def)

lemma clean_Cons [simp]: "clean A (c # s) \<longleftrightarrow> c \<in> A \<union> punctuation \<and> clean A s"
  by (auto simp: clean_def)

lemma clean_Nil [simp]: "clean A []"
  by (simp add: clean_def)

lemma clean_piece:
  assumes "opt \<in> set (split_options g)" "clean A g"
  shows "clean A opt" "pcount opt = 0"
proof -
  from split_options_pieces[OF assms(1)] have s: "set opt \<subseteq> set g - punctuation" .
  with assms(2) show "clean A opt" by (auto simp: clean_def)
  from s show "pcount opt = 0" by (auto simp: pcount_zero_iff)
qed

lemma step_options:
  assumes "clean A e" "a \<in> expand_options A e"
  shows "clean A a \<and> (pcount a = 0 \<or> (a = e \<and> set e \<inter> brackets \<noteq> {}))"
proof -
  from expand_options_cases[OF assms(2)]
  consider "a = e" "e = []" | "a = e" "\<not> set e \<subseteq> insert (CHR ''|'') A"
    | "a \<in> set (split_options e)" by blast
  then show ?thesis
  proof cases
    case 1
    then show ?thesis by simp
  next
    case 2
    then obtain c where "c \<in> set e" "c \<noteq> CHR ''|''" "c \<notin> A" by auto
    with assms(1) have "c \<in> brackets" by (auto simp: clean_def punctuation_def)
    with \<open>c \<in> set e\<close> 2(1) assms(1) show ?thesis by auto
  next
    case 3
    from clean_piece[OF this assms(1)] show ?thesis by simp
  qed
qed

lemma step_group:
  assumes "clean A a" "b \<in> expand_group A a"
  shows "clean A b \<and> ((b = a \<and> rx_search (GROUPS_REGEX A) a = None) \<or> pcount b + 2 \<le> pcount a)"
proof -
  from expand_group_cases[OF assms(2)] show ?thesis
  proof (elim disjE conjE exE)
    assume "b = a" "rx_search (GROUPS_REGEX A) a = None"
    with assms(1) show ?thesis by simp
  next
    fix w pre post opt
    assume h: "a = pre @ (CHR ''('' # w @ [CHR '')'']) @ post"
      "opt \<in> set (split_options (CHR ''('' # w @ [CHR '')'']))" "b = pre @ opt @ post"
    from h(1) assms(1) have c: "clean A pre" "clean A (CHR ''('' # w @ [CHR '')''])" "clean A post"
      by simp_all
    from clean_piece[OF h(2) c(2)] have o: "clean A opt" "pcount opt = 0" .
    have "pcount a = pcount pre + pcount (CHR ''('' # w @ [CHR '')'']) + pcount post"
      by (simp only: h(1) pcount_append)
    moreover have "pcount b = pcount pre + pcount post"
      by (simp only: h(3) pcount_append o(2))
    ultimately have "pcount b + 2 \<le> pcount a"
      using pcount_pair_group[of w] by linarith
    moreover have "clean A b" using h(3) c o by simp
    ultimately show ?thesis by simp
  qed
qed

lemma clean_collapse: "clean A s \<Longrightarrow> clean A (replace_all ''  '' '' '' s)"
  using set_collapse[of s] by (auto simp: clean_def)

lemma step_optional:
  assumes "clean A b" "d \<in> expand_optional A b"
  shows "clean A d \<and> ((d = b \<and> rx_search (OPTIONALS_REGEX A) b = None) \<or> pcount d + 2 \<le> pcount b)"
proof -
  from expand_optional_cases[OF assms(2)] show ?thesis
  proof (elim disjE conjE exE)
    assume "d = b" "rx_search (OPTIONALS_REGEX A) b = None"
    with assms(1) show ?thesis by simp
  next
    fix w pre post
    assume h: "b = pre @ (CHR ''['' # w @ [CHR '']'']) @ post"
      "d = replace_all ''  '' '' '' (pre @ post)"
    from h(1) assms(1) have c: "clean A pre" "clean A post" by simp_all
    have "pcount b = pcount pre + pcount (CHR ''['' # w @ [CHR '']'']) + pcount post"
      by (simp only: h(1) pcount_append)
    moreover have "pcount d = pcount pre + pcount post"
      by (simp only: h(2) pcount_collapse pcount_append)
    ultimately have "pcount d + 2 \<le> pcount b"
      using pcount_pair_optional[of w] by linarith
    moreover have "clean A d" using h(2) c clean_collapse[of A "pre @ post"] by simp
    ultimately show ?thesis by simp
  next
    fix w pre post
    assume h: "b = pre @ (CHR ''['' # w @ [CHR '']'']) @ post"
      "\<exists>opt \<in> set (split_options (CHR ''['' # w @ [CHR '']''])). d = pre @ opt @ post"
    then obtain opt where opt: "opt \<in> set (split_options (CHR ''['' # w @ [CHR '']'']))"
      "d = pre @ opt @ post" by blast
    from h(1) assms(1) have c: "clean A pre" "clean A (CHR ''['' # w @ [CHR '']''])" "clean A post"
      by simp_all
    from clean_piece[OF opt(1) c(2)] have o: "clean A opt" "pcount opt = 0" .
    have "pcount b = pcount pre + pcount (CHR ''['' # w @ [CHR '']'']) + pcount post"
      by (simp only: h(1) pcount_append)
    moreover have "pcount d = pcount pre + pcount post"
      by (simp only: opt(2) pcount_append o(2))
    ultimately have "pcount d + 2 \<le> pcount b"
      using pcount_pair_optional[of w] by linarith
    moreover have "clean A d" using opt(2) c o by simp
    ultimately show ?thesis by simp
  qed
qed

lemma balanced_innermost:
  assumes "balanced s" "set s \<inter> brackets \<noteq> {}"
  shows "\<exists>pre w post. set w \<inter> brackets = {} \<and>
           (s = pre @ (CHR ''('' # w @ [CHR '')'']) @ post \<or>
            s = pre @ (CHR ''['' # w @ [CHR '']'']) @ post)"
  using assms
proof (induction rule: balanced.induct)
  case empty
  then show ?case by simp
next
  case (other c)
  then show ?case by simp
next
  case (group w)
  show ?case
  proof (cases "set w \<inter> brackets = {}")
    case True
    then have "set w \<inter> brackets = {} \<and>
        (CHR ''('' # w @ [CHR '')''] = [] @ (CHR ''('' # w @ [CHR '')'']) @ [] \<or>
         CHR ''('' # w @ [CHR '')''] = [] @ (CHR ''['' # w @ [CHR '']'']) @ [])" by simp
    then show ?thesis by (intro exI)
  next
    case False
    from group.IH[OF False] obtain pre v post where
      v: "set v \<inter> brackets = {}"
      "w = pre @ (CHR ''('' # v @ [CHR '')'']) @ post \<or> w = pre @ (CHR ''['' # v @ [CHR '']'']) @ post"
      by blast
    then have "set v \<inter> brackets = {} \<and>
        (CHR ''('' # w @ [CHR '')''] = (CHR ''('' # pre) @ (CHR ''('' # v @ [CHR '')'']) @ (post @ [CHR '')'']) \<or>
         CHR ''('' # w @ [CHR '')''] = (CHR ''('' # pre) @ (CHR ''['' # v @ [CHR '']'']) @ (post @ [CHR '')'']))"
      by auto
    then show ?thesis by (intro exI)
  qed
next
  case (optional w)
  show ?case
  proof (cases "set w \<inter> brackets = {}")
    case True
    then have "set w \<inter> brackets = {} \<and>
        (CHR ''['' # w @ [CHR '']''] = [] @ (CHR ''('' # w @ [CHR '')'']) @ [] \<or>
         CHR ''['' # w @ [CHR '']''] = [] @ (CHR ''['' # w @ [CHR '']'']) @ [])" by simp
    then show ?thesis by (intro exI)
  next
    case False
    from optional.IH[OF False] obtain pre v post where
      v: "set v \<inter> brackets = {}"
      "w = pre @ (CHR ''('' # v @ [CHR '')'']) @ post \<or> w = pre @ (CHR ''['' # v @ [CHR '']'']) @ post"
      by blast
    then have "set v \<inter> brackets = {} \<and>
        (CHR ''['' # w @ [CHR '']''] = (CHR ''['' # pre) @ (CHR ''('' # v @ [CHR '')'']) @ (post @ [CHR '']'']) \<or>
         CHR ''['' # w @ [CHR '']''] = (CHR ''['' # pre) @ (CHR ''['' # v @ [CHR '']'']) @ (post @ [CHR '']'']))"
      by auto
    then show ?thesis by (intro exI)
  qed
next
  case (sequence u v)
  show ?case
  proof (cases "set u \<inter> brackets = {}")
    case False
    from sequence.IH(1)[OF False] obtain pre x post where
      x: "set x \<inter> brackets = {}"
      "u = pre @ (CHR ''('' # x @ [CHR '')'']) @ post \<or> u = pre @ (CHR ''['' # x @ [CHR '']'']) @ post"
      by blast
    then have "set x \<inter> brackets = {} \<and>
        (u @ v = pre @ (CHR ''('' # x @ [CHR '')'']) @ (post @ v) \<or>
         u @ v = pre @ (CHR ''['' # x @ [CHR '']'']) @ (post @ v))"
      by auto
    then show ?thesis by (intro exI)
  next
    case True
    with sequence.prems have "set v \<inter> brackets \<noteq> {}" by auto
    from sequence.IH(2)[OF this] obtain pre x post where
      x: "set x \<inter> brackets = {}"
      "v = pre @ (CHR ''('' # x @ [CHR '')'']) @ post \<or> v = pre @ (CHR ''['' # x @ [CHR '']'']) @ post"
      by blast
    then have "set x \<inter> brackets = {} \<and>
        (u @ v = (u @ pre) @ (CHR ''('' # x @ [CHR '')'']) @ post \<or>
         u @ v = (u @ pre) @ (CHR ''['' # x @ [CHR '']'']) @ post)"
      by auto
    then show ?thesis by (intro exI)
  qed
qed

lemma occurs_inI: "s = pre @ w @ post \<Longrightarrow> w \<in> rx_lang r \<Longrightarrow> occurs_in r s"
  unfolding occurs_in_def by blast

lemma progress:
  assumes "clean A a" "fst (validate_bnf_groups a)" "set a \<inter> brackets \<noteq> {}"
  shows "rx_search (GROUPS_REGEX A) a \<noteq> None \<or> rx_search (OPTIONALS_REGEX A) a \<noteq> None"
proof -
  from assms(2) have "balanced a" using validate_accepts_balanced[of a] by simp
  from balanced_innermost[OF this assms(3)] obtain pre w post where
    w: "set w \<inter> brackets = {}"
    "a = pre @ (CHR ''('' # w @ [CHR '')'']) @ post \<or> a = pre @ (CHR ''['' # w @ [CHR '']'']) @ post"
    by blast
  from w(2) assms(1) have "clean A w" by auto
  with w(1) have sub: "set w \<subseteq> insert (CHR ''|'') A"
    by (auto simp: clean_def punctuation_def)
  from w(2) show ?thesis
  proof
    assume "a = pre @ (CHR ''('' # w @ [CHR '')'']) @ post"
    moreover have "CHR ''('' # w @ [CHR '')''] \<in> rx_lang (GROUPS_REGEX A)"
      unfolding groups_lang using sub by blast
    ultimately have "occurs_in (GROUPS_REGEX A) a" by (rule occurs_inI)
    then show ?thesis by (simp add: rx_search_None_occurs)
  next
    assume "a = pre @ (CHR ''['' # w @ [CHR '']'']) @ post"
    moreover have "CHR ''['' # w @ [CHR '']''] \<in> rx_lang (OPTIONALS_REGEX A)"
      unfolding optionals_lang using sub by blast
    ultimately have "occurs_in (OPTIONALS_REGEX A) a" by (rule occurs_inI)
    then show ?thesis by (simp add: rx_search_None_occurs)
  qed
qed

lemma no_bracket_no_match:
  assumes "set a \<inter> brackets = {}"
  shows "rx_search (GROUPS_REGEX A) a = None" "rx_search (OPTIONALS_REGEX A) a = None"
proof -
  show "rx_search (GROUPS_REGEX A) a = None"
  proof (cases "rx_search (GROUPS_REGEX A) a")
    case (Some g)
    from group_match_shape[OF Some] obtain w pre post where
      "g = CHR ''('' # w @ [CHR '')'']" "a = pre @ g @ post" by blast
    then have "CHR ''('' \<in> set a" by simp
    with assms show ?thesis by (auto simp: brackets_def)
  qed simp
  show "rx_search (OPTIONALS_REGEX A) a = None"
  proof (cases "rx_search (OPTIONALS_REGEX A) a")
    case (Some g)
    from optional_match_shape[OF Some] obtain w pre post where
      "g = CHR ''['' # w @ [CHR '']'']" "a = pre @ g @ post" by blast
    then have "CHR ''['' \<in> set a" by simp
    with assms show ?thesis by (auto simp: brackets_def)
  qed simp
qed

lemma no_bracket_fixed:
  assumes "set a \<inter> brackets = {}"
  shows "expand_group A a = {a}" "expand_optional A a = {a}"
  using no_bracket_no_match[OF assms, of A]
  by (simp_all add: expand_group_def expand_optional_unfold)

lemma round_decreases:
  assumes "clean A e" "a \<in> expand_options A e" "fst (validate_bnf_groups a)"
    "b \<in> expand_group A a" "d \<in> expand_optional A b"
  shows "clean A d \<and> (pcount d < pcount e \<or> (pcount e = 0 \<and> pcount d = 0))"
proof -
  from step_options[OF assms(1,2)] have ca: "clean A a"
    and a: "pcount a = 0 \<or> (a = e \<and> set e \<inter> brackets \<noteq> {})" by simp_all
  from step_group[OF ca assms(4)] have cb: "clean A b"
    and b: "(b = a \<and> rx_search (GROUPS_REGEX A) a = None) \<or> pcount b + 2 \<le> pcount a" by simp_all
  from step_optional[OF cb assms(5)] have cd: "clean A d"
    and d: "(d = b \<and> rx_search (OPTIONALS_REGEX A) b = None) \<or> pcount d + 2 \<le> pcount b" by simp_all
  have le: "pcount d \<le> pcount a" using b d by auto
  from a have "pcount d < pcount e \<or> (pcount e = 0 \<and> pcount d = 0)"
  proof
    assume "pcount a = 0"
    with le have "pcount d = 0" by simp
    then show ?thesis by (cases "pcount e") simp_all
  next
    assume ae: "a = e \<and> set e \<inter> brackets \<noteq> {}"
    with progress[OF ca assms(3)] have
      "rx_search (GROUPS_REGEX A) a \<noteq> None \<or> rx_search (OPTIONALS_REGEX A) a \<noteq> None" by simp
    with b d have "pcount d < pcount a" by auto
    with ae show ?thesis by simp
  qed
  with cd show ?thesis by simp
qed

section \<open>The word-only check and the validation loop\<close>

lemma lower_char_idem: "lower_char (lower_char c) = lower_char c"
  unfolding lower_char_def Let_def by (auto simp: )

lemma lower_lower [simp]: "lower (lower s) = lower s"
  by (simp add: lower_def lower_char_idem)

lemma is_words_only_unfold:
  assumes "alphabets (lower l) = Some A"
  shows "is_words_only alphabets t l =
     (case dropWhile (\<lambda>c. c \<notin> A) t of
        [] \<Rightarrow> (Inl AttributeError, [])
      | c # u \<Rightarrow> (Inr (takeWhile (\<lambda>c. c \<in> A) (c # u) = t), []))"
proof (cases "dropWhile (\<lambda>c. c \<notin> A) t")
  case Nil
  then have "rx_search (WORDS_REGEX A) t = None" by (simp only: words_search list.case)
  with assms Nil show ?thesis by (simp only: is_words_only_def option.case list.case)
next
  case (Cons c u)
  then have "rx_search (WORDS_REGEX A) t = Some (takeWhile (\<lambda>c. c \<in> A) (c # u))"
    by (simp only: words_search list.case)
  with assms Cons show ?thesis by (simp only: is_words_only_def option.case list.case)
qed

lemma is_words_only_raise:
  assumes "alphabets (lower l) = Some A" "set t \<inter> A = {}"
  shows "is_words_only alphabets t l = (Inl AttributeError, [])"
proof -
  have "dropWhile (\<lambda>c. c \<notin> A) t = []" using assms(2) by auto
  then show ?thesis
    by (simp only: is_words_only_unfold[where alphabets=alphabets and l=l and A=A, OF assms(1)]
        list.case)
qed

lemma takeWhile_all: "set t \<subseteq> A \<Longrightarrow> takeWhile (\<lambda>c. c \<in> A) t = t"
  by (induction t) auto

lemma is_words_only_word:
  assumes "alphabets (lower l) = Some A" "t \<noteq> []" "set t \<subseteq> A"
  shows "is_words_only alphabets t l = (Inr True, [])"
proof -
  from assms(2) obtain c u where t: "t = c # u" by (cases t) auto
  with assms(3) have d: "dropWhile (\<lambda>c. c \<notin> A) t = c # u" by simp
  have "takeWhile (\<lambda>c. c \<in> A) (c # u) = t" using assms(3) t takeWhile_all[of t A] by simp
  then show ?thesis
    by (simp only: is_words_only_unfold[where alphabets=alphabets and l=l and A=A, OF assms(1)]
        d list.case) simp
qed

lemma is_words_only_True_iff:
  assumes "alphabets (lower l) = Some A"
  shows "fst (is_words_only alphabets t l) = Inr True \<longleftrightarrow> t \<noteq> [] \<and> set t \<subseteq> A"
proof
  assume a: "fst (is_words_only alphabets t l) = Inr True"
  show "t \<noteq> [] \<and> set t \<subseteq> A"
  proof (cases "dropWhile (\<lambda>c. c \<notin> A) t")
    case Nil
    have "is_words_only alphabets t l = (Inl AttributeError, [])"
      by (simp only: is_words_only_unfold[where alphabets=alphabets and l=l and A=A, OF assms]
          Nil list.case)
    with a show ?thesis by simp
  next
    case (Cons c u)
    have "is_words_only alphabets t l = (Inr (takeWhile (\<lambda>c. c \<in> A) (c # u) = t), [])"
      by (simp only: is_words_only_unfold[where alphabets=alphabets and l=l and A=A, OF assms]
          Cons list.case)
    with a have eq: "takeWhile (\<lambda>c. c \<in> A) (c # u) = t" by simp
    have "set (takeWhile (\<lambda>c. c \<in> A) (c # u)) \<subseteq> A"
      using set_takeWhileD by fastforce
    with eq have sub: "set t \<subseteq> A" by simp
    have "t \<noteq> []"
    proof
      assume "t = []"
      with Cons show False by simp
    qed
    with sub show ?thesis by simp
  qed
next
  assume "t \<noteq> [] \<and> set t \<subseteq> A"
  then show "fst (is_words_only alphabets t l) = Inr True"
    using is_words_only_word[where alphabets=alphabets and l=l and A=A, OF assms] by simp
qed

lemma is_words_only_log:
  assumes "alphabets (lower l) = Some A"
  shows "snd (is_words_only alphabets t l) = []"
  by (cases "dropWhile (\<lambda>c. c \<notin> A) t")
    (simp_all only: is_words_only_unfold[where alphabets=alphabets and l=l and A=A, OF assms]
      list.case snd_conv)

lemma is_words_only_over:
  assumes "alphabets (lower l) = Some A" "set t \<subseteq> A"
  shows "fst (is_words_only alphabets t l) \<noteq> Inr False"
proof (cases "t = []")
  case True
  then have "set t \<inter> A = {}" by simp
  from is_words_only_raise[where alphabets=alphabets and l=l and A=A, OF assms(1) this]
  show ?thesis by simp
next
  case False
  from is_words_only_word[where alphabets=alphabets and l=l and A=A, OF assms(1) False assms(2)]
  show ?thesis by simp
qed

lemma are_all_words_only_Cons:
  assumes "alphabets (lower (lower l)) = Some A"
  shows "are_all_words_only alphabets (t # ts) l =
     (case fst (is_words_only alphabets t (lower l)) of
        Inl e \<Rightarrow> (Inl e, [])
      | Inr all_words \<Rightarrow> if all_words then are_all_words_only alphabets ts l else (Inr False, []))"
proof -
  have "snd (is_words_only alphabets t (lower l)) = []"
    using assms by (rule is_words_only_log)
  then obtain r where r: "is_words_only alphabets t (lower l) = (r, [])"
    by (cases "is_words_only alphabets t (lower l)") auto
  show ?thesis
  proof (cases r)
    case (Inl e)
    with r show ?thesis by simp
  next
    case (Inr w)
    with r show ?thesis by (cases w) (simp_all split: prod.split)
  qed
qed

lemma are_all_words_only_log:
  assumes "alphabets (lower (lower l)) = Some A"
  shows "snd (are_all_words_only alphabets ts l) = []"
proof (induction ts)
  case Nil
  then show ?case by simp
next
  case (Cons t ts)
  then show ?case
    unfolding are_all_words_only_Cons[where alphabets=alphabets and l=l and A=A, OF assms]
    by (simp split: sum.split)
qed

lemma are_all_words_only_True_iff:
  assumes "alphabets (lower (lower l)) = Some A"
  shows "fst (are_all_words_only alphabets ts l) = Inr True \<longleftrightarrow>
           (\<forall>t \<in> set ts. t \<noteq> [] \<and> set t \<subseteq> A)"
proof (induction ts)
  case Nil
  then show ?case by simp
next
  case (Cons t ts)
  note iff = is_words_only_True_iff[where alphabets=alphabets and l="lower l" and A=A and t=t,
      OF assms]
  show ?case
  proof (cases "fst (is_words_only alphabets t (lower l))")
    case (Inl e)
    with iff have "\<not> (t \<noteq> [] \<and> set t \<subseteq> A)" by simp
    with Inl show ?thesis
      unfolding are_all_words_only_Cons[where alphabets=alphabets and l=l and A=A, OF assms]
      by auto
  next
    case (Inr w)
    show ?thesis
    proof (cases w)
      case True
      with Inr iff have "t \<noteq> [] \<and> set t \<subseteq> A" by simp
      with Inr True Cons.IH show ?thesis
        unfolding are_all_words_only_Cons[where alphabets=alphabets and l=l and A=A, OF assms]
        by auto
    next
      case False
      with Inr iff have "\<not> (t \<noteq> [] \<and> set t \<subseteq> A)" by simp
      with Inr False show ?thesis
        unfolding are_all_words_only_Cons[where alphabets=alphabets and l=l and A=A, OF assms]
        by auto
    qed
  qed
qed

lemma are_all_words_only_over:
  assumes "alphabets (lower (lower l)) = Some A" "\<forall>t \<in> set ts. set t \<subseteq> A"
  shows "fst (are_all_words_only alphabets ts l) \<noteq> Inr False"
  using assms(2)
proof (induction ts)
  case Nil
  then show ?case by simp
next
  case (Cons t ts)
  then have t: "set t \<subseteq> A" and IH: "fst (are_all_words_only alphabets ts l) \<noteq> Inr False"
    by simp_all
  from is_words_only_over[where alphabets=alphabets and l="lower l" and A=A, OF assms(1) t]
  have nf: "fst (is_words_only alphabets t (lower l)) \<noteq> Inr False" .
  show ?case
  proof (cases "fst (is_words_only alphabets t (lower l))")
    case (Inl e)
    then show ?thesis
      unfolding are_all_words_only_Cons[where alphabets=alphabets and l=l and A=A, OF assms(1)]
      by simp
  next
    case (Inr w)
    with nf have "w" by (cases w) simp_all
    with Inr IH show ?thesis
      unfolding are_all_words_only_Cons[where alphabets=alphabets and l=l and A=A, OF assms(1)]
      by simp
  qed
qed

lemma are_all_words_only_raise:
  assumes "alphabets (lower (lower l)) = Some A"
    "\<exists>t \<in> set ts. set t \<inter> A = {}"
    "\<forall>t \<in> set ts. set t \<inter> A = {} \<or> (t \<noteq> [] \<and> set t \<subseteq> A)"
  shows "are_all_words_only alphabets ts l = (Inl AttributeError, [])"
  using assms(2,3)
proof (induction ts)
  case Nil
  then show ?case by simp
next
  case (Cons t ts)
  from Cons.prems(2) consider "set t \<inter> A = {}" | "t \<noteq> []" "set t \<subseteq> A" "set t \<inter> A \<noteq> {}"
    by auto
  then show ?case
  proof cases
    case 1
    from is_words_only_raise[where alphabets=alphabets and l="lower l" and A=A, OF assms(1) 1]
    show ?thesis
      unfolding are_all_words_only_Cons[where alphabets=alphabets and l=l and A=A, OF assms(1)]
      by simp
  next
    case 2
    with Cons.prems have "\<exists>t \<in> set ts. set t \<inter> A = {}"
      "\<forall>t \<in> set ts. set t \<inter> A = {} \<or> (t \<noteq> [] \<and> set t \<subseteq> A)" by auto
    from Cons.IH[OF this] have IH: "are_all_words_only alphabets ts l = (Inl AttributeError, [])" .
    from is_words_only_word[where alphabets=alphabets and l="lower l" and A=A, OF assms(1) 2(1,2)]
    show ?thesis
      unfolding are_all_words_only_Cons[where alphabets=alphabets and l=l and A=A, OF assms(1)]
      using IH by simp
  qed
qed

lemma validate_log_valid: "fst (validate_bnf_groups e) \<Longrightarrow> validate_bnf_groups e = (True, [])"
  using validate_accepts_balanced[of e] by (cases "validate_bnf_groups e") auto

lemma validate_log_invalid:
  "\<not> fst (validate_bnf_groups e) \<Longrightarrow> \<exists>l. l \<noteq> [] \<and> validate_bnf_groups e = (False, l)"
  using validate_accepts_balanced[of e] by (cases "validate_bnf_groups e") auto

lemma group_loop_valid:
  assumes "\<forall>e \<in> set es. fst (validate_bnf_groups e)"
  shows "group_loop A es acc log = (Some (acc \<union> (\<Union>e \<in> set es. expand_group A e)), log)"
  using assms
proof (induction es arbitrary: acc)
  case Nil
  then show ?case by simp
next
  case (Cons e es)
  then have "validate_bnf_groups e = (True, [])" by (simp add: validate_log_valid)
  moreover have "group_loop A es (acc \<union> expand_group A e) log =
      (Some ((acc \<union> expand_group A e) \<union> (\<Union>e \<in> set es. expand_group A e)), log)"
    using Cons by simp
  ultimately show ?case by (simp add: Un_assoc)
qed

lemma group_loop_invalid:
  assumes "\<exists>e \<in> set es. \<not> fst (validate_bnf_groups e)"
  shows "\<exists>l. l \<noteq> [] \<and> group_loop A es acc log = (None, log @ l)"
  using assms
proof (induction es arbitrary: acc)
  case Nil
  then show ?case by simp
next
  case (Cons e es)
  show ?case
  proof (cases "fst (validate_bnf_groups e)")
    case True
    then have v: "validate_bnf_groups e = (True, [])" by (rule validate_log_valid)
    from True Cons.prems have "\<exists>e \<in> set es. \<not> fst (validate_bnf_groups e)" by auto
    from Cons.IH[OF this, of "acc \<union> expand_group A e"] v show ?thesis by simp
  next
    case False
    from validate_log_invalid[OF this] obtain l where "l \<noteq> []" "validate_bnf_groups e = (False, l)"
      by blast
    then show ?thesis by simp
  qed
qed

section \<open>Results of a call\<close>

text \<open>
  C8: for every input set and every language code whose lower-case form is not a key of
  the table, the call returns the empty list and logs exactly the one
  unsupported-language error; nothing is expanded.
\<close>

theorem unsupported_language_empty:
  "alphabets (lower language_code) = None \<Longrightarrow>
     expand_bnf_recursive iter alphabets to_be_expanded language_code [] =
       Some (Inr [], [LanguageNotSupported])"
  by (subst expand_bnf_recursive.simps) simp

theorem unsupported_language_empty_witness:
  "sample_alphabets (lower ''XX'') = None \<and>
   expand_bnf_recursive sorted_list_of_set sample_alphabets {''a|b''} ''XX'' [] =
     Some (Inr [], [LanguageNotSupported])"
proof -
  have h: "sample_alphabets (lower ''XX'') = None"
    by code_simp
  from unsupported_language_empty [of sample_alphabets "''XX''", OF h] h
  show ?thesis by blast
qed

text \<open>
  C3: on the notation \<open>(a|b) [c|d]\<close>, with a class that holds the space, the call returns
  six sentences, but the two without the optional part keep the space that stood before
  it: \<open>a \<close> and \<open>b \<close>, not \<open>a\<close> and \<open>b\<close>.
\<close>

theorem group_then_optional_result:
  "expand_bnf_recursive sorted_list_of_set sample_alphabets {''(a|b) [c|d]''} ''en'' [] =
     Some (Inr [''a '', ''a c'', ''a d'', ''b '', ''b c'', ''b d''], [])"
  by code_simp

lemma returned_list_sorted_distinct:
  assumes "expand_bnf_recursive iter alphabets to_be_expanded language_code log = Some y"
  shows "\<forall>xs l. y = (Inr xs, l) \<longrightarrow> sorted xs \<and> distinct xs"
  by (rule expand_bnf_recursive.raw_induct
      [where P = "\<lambda>_ _ _ _ _ y. \<forall>xs l. y = (Inr xs, l) \<longrightarrow> sorted xs \<and> distinct xs",
        OF _ assms])
    (auto split: option.splits if_splits prod.splits sum.splits simp: Let_def)

text \<open>
  C5: whenever the call returns a list, the list has no duplicates and is sorted in
  ascending lexicographic order.
\<close>

theorem result_sorted_distinct:
  "expand_bnf_recursive iter alphabets to_be_expanded language_code log = Some (Inr xs, log')
     \<Longrightarrow> sorted xs \<and> distinct xs"
  using returned_list_sorted_distinct by blast

theorem result_sorted_distinct_witness:
  "expand_bnf_recursive sorted_list_of_set sample_alphabets {''b|a|b''} ''en'' [] =
     Some (Inr [''a'', ''b''], []) \<and> sorted [''a'', ''b''] \<and> distinct [''a'', ''b'']"
proof -
  have h: "expand_bnf_recursive sorted_list_of_set sample_alphabets {''b|a|b''} ''en'' [] =
      Some (Inr [''a'', ''b''], [])"
    by code_simp
  from result_sorted_distinct [OF h] h show ?thesis by blast
qed

section \<open>The substitution step\<close>

text \<open>
  C7: for a candidate and a span that occurs in it, the substitution step returns exactly
  the strings obtained by replacing the first occurrence of the span (the one with the
  shortest text before it) by each alternative of the span: brackets removed, split at the
  bars, each piece trimmed. The text after that occurrence, later occurrences included, is
  kept as it is, and equal results are one element of the set.
\<close>

theorem substitution_first_occurrence:
  assumes "bnf = pre @ matched_value @ post"
    and "\<forall>pre' post'. bnf = pre' @ matched_value @ post' \<longrightarrow> length pre \<le> length pre'"
  shows "get_potential_options bnf matched_value =
     {pre @ alternative @ post | alternative.
        alternative \<in> set (map strip (split_on (CHR ''|'')
                                  (filter (\<lambda>c. c \<notin> brackets) matched_value)))}"
proof -
  have least: "length pre \<le> length pre'" if "bnf = pre' @ matched_value @ post'" for pre' post'
    using assms(2) that by blast
  have "replace_first matched_value option bnf = pre @ option @ post" for option
    using assms(1) least by (rule replace_first_least)
  then show ?thesis
    unfolding get_potential_options_def split_options_unfold by auto
qed

theorem substitution_first_occurrence_witness:
  "get_potential_options ''x (a|a |b) (a|a |b)'' ''(a|a |b)'' = {''x a (a|a |b)'', ''x b (a|a |b)''}"
proof -
  have eq: "''x (a|a |b) (a|a |b)'' = ''x '' @ ''(a|a |b)'' @ '' (a|a |b)''" by simp
  have alts: "map strip (split_on (CHR ''|'') (filter (\<lambda>c. c \<notin> brackets) ''(a|a |b)'')) = [''a'', ''a'', ''b'']"
    by code_simp
  show ?thesis
    unfolding substitution_first_occurrence [OF eq first_occ_example] alts by auto
qed

text \<open>
  C10: when the candidate has an optional span, the variant without it is the candidate
  with the first occurrence of the span deleted and then every pair of spaces, scanned
  from the left, replaced by one space. So a run of \<open>k\<close> spaces anywhere in the string
  becomes a run of \<open>(k + 1) div 2\<close> spaces (two become one also far from the deleted
  span, three become two), and every other character is kept.
\<close>

theorem absent_optional_variant:
  assumes "rx_search (OPTIONALS_REGEX A) expanding = Some optional"
  shows "expand_optional A expanding =
           insert (replace_all ''  '' '' '' (replace_first optional [] expanding))
             (get_potential_options expanding optional)
       \<and> (\<exists>pre post. expanding = pre @ optional @ post \<and>
              replace_first optional [] expanding = pre @ post)
       \<and> (\<forall>k rest. rest = [] \<or> hd rest \<noteq> CHR '' '' \<longrightarrow>
              replace_all ''  '' '' '' (replicate k (CHR '' '') @ rest) =
                replicate ((k + 1) div 2) (CHR '' '') @ replace_all ''  '' '' '' rest)
       \<and> (\<forall>c rest. c \<noteq> CHR '' '' \<longrightarrow>
              replace_all ''  '' '' '' (c # rest) = c # replace_all ''  '' '' '' rest)
       \<and> replace_all ''  '' '' '' [] = []"
proof -
  from optional_match_shape[OF assms] obtain w pre post where
    g: "optional = CHR ''['' # w @ [CHR '']'']" "expanding = pre @ optional @ post" by blast
  then have ne: "optional \<noteq> []" by simp
  have 1: "expand_optional A expanding =
           insert (replace_all ''  '' '' '' (replace_first optional [] expanding))
             (get_potential_options expanding optional)"
    using assms ne by (simp add: expand_optional_def Let_def)
  have 2: "\<exists>pre post. expanding = pre @ optional @ post \<and>
              replace_first optional [] expanding = pre @ post"
    using replace_first_occurrence[of expanding optional "[]"] g(2) by auto
  show ?thesis
    using 1 2 collapse_run collapse_other collapse_Nil by blast
qed

theorem absent_optional_variant_witness:
  "rx_search (OPTIONALS_REGEX sample_class) ''a  b [c] d'' = Some ''[c]'' \<and>
   expand_optional sample_class ''a  b [c] d'' = {''a b d'', ''a  b c d''} \<and>
   rx_search (OPTIONALS_REGEX sample_class) ''a  [c] d'' = Some ''[c]'' \<and>
   expand_optional sample_class ''a  [c] d'' = {''a  d'', ''a  c d''}"
proof -
  have h1: "rx_search (OPTIONALS_REGEX sample_class) ''a  b [c] d'' = Some ''[c]''"
    by code_simp
  have h2: "rx_search (OPTIONALS_REGEX sample_class) ''a  [c] d'' = Some ''[c]''"
    by code_simp
  have e1: "insert (replace_all ''  '' '' '' (replace_first ''[c]'' [] ''a  b [c] d''))
             (get_potential_options ''a  b [c] d'' ''[c]'') = {''a b d'', ''a  b c d''}"
    by code_simp
  have e2: "insert (replace_all ''  '' '' '' (replace_first ''[c]'' [] ''a  [c] d''))
             (get_potential_options ''a  [c] d'' ''[c]'') = {''a  d'', ''a  c d''}"
    by code_simp
  from absent_optional_variant[OF h1] absent_optional_variant[OF h2] h1 h2 e1 e2
  show ?thesis by simp
qed

end
